theory Spec2Isabelle
  imports Main "HOL-Library.AList" "HOL-Library.Word"
begin

section \<open>The regular expressions of Go's \<^verbatim>\<open>regexp\<close> package\<close>

text \<open>
  The router is built on the standard library's \<^verbatim>\<open>regexp\<close> package: the pattern parser
  scans a pattern with \<^verbatim>\<open>FindAllStringSubmatch\<close> and \<^verbatim>\<open>ReplaceAllStringFunc\<close>, and the
  dispatcher matches a request path with \<^verbatim>\<open>FindStringSubmatch\<close> and \<^verbatim>\<open>MatchString\<close>.
  The library is modelled here for the part of its syntax that the router's own
  expressions and the documented placeholder forms use: literals, \<^verbatim>\<open>.\<close>, bracket
  classes of characters and ranges, the Perl classes \<^verbatim>\<open>\d \w \s\<close>, escaped punctuation,
  \<^verbatim>\<open>^\<close> and \<^verbatim>\<open>$\<close> (no multi-line flag), greedy \<^verbatim>\<open>* + ?\<close>, alternation, capturing
  groups and \<^verbatim>\<open>(?:...)\<close>. Strings are byte strings read as ASCII.

  Matching is leftmost-first, as \<^verbatim>\<open>regexp\<close> documents it: among the matches that start
  leftmost, the one a backtracking search finds first. A capture group that took no part
  in the match is reported as the empty string.
\<close>

datatype regex =
    Eps
  | Chr char
  | Dot
  | Cls bool "(char \<times> char) list"
  | Bol
  | Eol
  | Seq regex regex
  | Alt regex regex
  | Star regex
  | Plus regex
  | Opt regex
  | Grp nat regex

text \<open>A character belongs to a class when one of the class's ranges holds it.\<close>

definition in_range :: "char \<Rightarrow> char \<times> char \<Rightarrow> bool" where
  "in_range c r = ((of_char (fst r) :: nat) \<le> of_char c \<and> (of_char c :: nat) \<le> of_char (snd r))"

definition in_class :: "bool \<Rightarrow> (char \<times> char) list \<Rightarrow> char \<Rightarrow> bool" where
  "in_class neg rs c = (list_ex (in_range c) rs \<noteq> neg)"

text \<open>
  A state of the search: the offset reached in the text, the text still to read, and
  the capture groups set so far.
\<close>

type_synonym mstate = "nat \<times> string \<times> (nat \<rightharpoonup> string)"

fun rweight :: "regex \<Rightarrow> nat" where
  "rweight (Seq a b) = Suc (rweight a + rweight b)"
| "rweight (Alt a b) = Suc (rweight a + rweight b)"
| "rweight (Star a) = Suc (rweight a)"
| "rweight (Plus a) = Suc (Suc (rweight a))"
| "rweight (Opt a) = Suc (rweight a)"
| "rweight (Grp n a) = Suc (rweight a)"
| "rweight _ = 0"

text \<open>
  \<open>ends_of r st\<close> lists the states in which \<open>r\<close> can end when started in \<open>st\<close>, in the
  order of preference of the leftmost-first rule: a greedy operator tries one more
  round before it tries to stop, an alternation its left branch before its right one.
  A round of \<open>Star\<close> that reads nothing is not repeated: it is dropped, with the groups
  it set, where Go's matcher may keep them, so the model is that of Go for loops whose
  body reads at least one character, as in every expression evaluated below. A character
  is a byte, as it is in ASCII text.
\<close>

function ends_of :: "regex \<Rightarrow> mstate \<Rightarrow> mstate list" where
  "ends_of Eps st = [st]"
| "ends_of (Chr c) (i, s, cs) =
     (case s of [] \<Rightarrow> [] | x # xs \<Rightarrow> if x = c then [(Suc i, xs, cs)] else [])"
| "ends_of Dot (i, s, cs) =
     (case s of [] \<Rightarrow> [] | x # xs \<Rightarrow> if x \<noteq> CHR 0x0A then [(Suc i, xs, cs)] else [])"
| "ends_of (Cls neg rs) (i, s, cs) =
     (case s of [] \<Rightarrow> [] | x # xs \<Rightarrow> if in_class neg rs x then [(Suc i, xs, cs)] else [])"
| "ends_of Bol (i, s, cs) = (if i = 0 then [(i, s, cs)] else [])"
| "ends_of Eol (i, s, cs) = (if s = [] then [(i, s, cs)] else [])"
| "ends_of (Seq a b) st = concat (map (ends_of b) (ends_of a st))"
| "ends_of (Alt a b) st = ends_of a st @ ends_of b st"
| "ends_of (Star a) st =
     concat (map (\<lambda>st'. if length (fst (snd st')) < length (fst (snd st))
                          then ends_of (Star a) st' else [])
                 (ends_of a st)) @ [st]"
| "ends_of (Plus a) st = concat (map (ends_of (Star a)) (ends_of a st))"
| "ends_of (Opt a) st = ends_of a st @ [st]"
| "ends_of (Grp n a) (i, s, cs) =
     map (\<lambda>(j, s', cs'). (j, s', cs'(n \<mapsto> take (j - i) s))) (ends_of a (i, s, cs))"
  by pat_completeness auto
termination
  by (relation "inv_image (less_than <*lex*> less_than)
                  (\<lambda>(r, st). (rweight r, length (fst (snd st))))") auto

text \<open>The number of capture groups of an expression (\<^verbatim>\<open>NumSubexp\<close>).\<close>

fun ngroups :: "regex \<Rightarrow> nat" where
  "ngroups (Seq a b) = ngroups a + ngroups b"
| "ngroups (Alt a b) = ngroups a + ngroups b"
| "ngroups (Star a) = ngroups a"
| "ngroups (Plus a) = ngroups a"
| "ngroups (Opt a) = ngroups a"
| "ngroups (Grp n a) = Suc (ngroups a)"
| "ngroups _ = 0"

text \<open>
  \<open>search re i s\<close> is the leftmost-first match of \<open>re\<close> in a text whose part from
  offset \<open>i\<close> on is \<open>s\<close>: the start of the match, the state at its end.
\<close>

fun search :: "regex \<Rightarrow> nat \<Rightarrow> string \<Rightarrow> (nat \<times> mstate) option" where
  "search re i [] = (case ends_of re (i, [], Map.empty) of [] \<Rightarrow> None | st # _ \<Rightarrow> Some (i, st))"
| "search re i (x # xs) =
     (case ends_of re (i, x # xs, Map.empty) of
        [] \<Rightarrow> search re (Suc i) xs
      | st # _ \<Rightarrow> Some (i, st))"

text \<open>
  The slice of strings the \<^verbatim>\<open>Submatch\<close> functions return for a match found in the text
  \<open>s\<close> (read from offset \<open>i\<close>): the matched text, then the text of each group.
\<close>

definition submatches :: "regex \<Rightarrow> nat \<Rightarrow> string \<Rightarrow> nat \<times> mstate \<Rightarrow> string list" where
  "submatches re i s m =
     (case m of (a, b, _, cs) \<Rightarrow>
        take (b - a) (drop (a - i) s) #
        map (\<lambda>g. case cs g of None \<Rightarrow> [] | Some t \<Rightarrow> t) [1..<Suc (ngroups re)])"

definition FindStringSubmatch :: "regex \<Rightarrow> string \<Rightarrow> string list option" where
  "FindStringSubmatch re s = map_option (submatches re 0 s) (search re 0 s)"

definition MatchString :: "regex \<Rightarrow> string \<Rightarrow> bool" where
  "MatchString re s = (search re 0 s \<noteq> None)"

subsection \<open>Compiling an expression\<close>

text \<open>
  \<^verbatim>\<open>regexp.MustCompile\<close> reads the expression from left to right, keeping the
  alternatives and the sequence under construction and a stack of the groups still open;
  the model does the same, one character at a time. A capturing group takes the next
  number when its parenthesis opens. The result \<open>None\<close> stands for an expression that
  \<^verbatim>\<open>MustCompile\<close> rejects with a panic, and also for one that uses syntax left out of
  this model (a repetition \<^verbatim>\<open>{n,m}\<close>, a lazy operator, a flag or a named group, an escape
  other than \<^verbatim>\<open>\d \w \s \D \W \S\<close> and punctuation, an escape or a bracket inside a
  class, a byte outside ASCII): nothing below concludes anything from a \<open>None\<close>
  other than that preparation did not complete.
\<close>

datatype pend = NoPend | Lo char | LoDash char

datatype mode =
    Normal
  | Esc
  | Open
  | OpenQ
  | ClsOpen
  | InCls bool bool "(char \<times> char) list" pend

type_synonym frame = "nat option \<times> regex list \<times> regex list"

record pstate =
  pmode :: mode
  cur :: "regex list"
  alts :: "regex list"
  stack :: "frame list"
  ncap :: nat
  rep :: bool

fun mkseq :: "regex list \<Rightarrow> regex" where
  "mkseq [] = Eps"
| "mkseq [a] = a"
| "mkseq (a # b # bs) = Seq a (mkseq (b # bs))"

fun mkalt :: "regex list \<Rightarrow> regex" where
  "mkalt [] = Eps"
| "mkalt [a] = a"
| "mkalt (a # b # bs) = Alt a (mkalt (b # bs))"

text \<open>The alternation of the alternatives closed so far and the sequence in hand.\<close>

definition collapse :: "regex list \<Rightarrow> regex list \<Rightarrow> regex" where
  "collapse as c = mkalt (rev (mkseq (rev c) # as))"

definition is_ascii :: "char \<Rightarrow> bool" where
  "is_ascii c = ((of_char c :: nat) < 128)"

definition is_alnum :: "char \<Rightarrow> bool" where
  "is_alnum c = in_class False
     [(CHR ''0'', CHR ''9''), (CHR ''A'', CHR ''Z''), (CHR ''a'', CHR ''z'')] c"

definition digit_ranges :: "(char \<times> char) list" where
  "digit_ranges = [(CHR ''0'', CHR ''9'')]"

definition word_ranges :: "(char \<times> char) list" where
  "word_ranges = [(CHR ''0'', CHR ''9''), (CHR ''A'', CHR ''Z''), (CHR ''_'', CHR ''_''),
                  (CHR ''a'', CHR ''z'')]"

definition space_ranges :: "(char \<times> char) list" where
  "space_ranges = [(CHR 0x09, CHR 0x0A), (CHR 0x0C, CHR 0x0D), (CHR '' '', CHR '' '')]"

definition escape :: "char \<Rightarrow> regex option" where
  "escape c =
     (if c = CHR ''d'' then Some (Cls False digit_ranges)
      else if c = CHR ''D'' then Some (Cls True digit_ranges)
      else if c = CHR ''w'' then Some (Cls False word_ranges)
      else if c = CHR ''W'' then Some (Cls True word_ranges)
      else if c = CHR ''s'' then Some (Cls False space_ranges)
      else if c = CHR ''S'' then Some (Cls True space_ranges)
      else if is_ascii c \<and> \<not> is_alnum c then Some (Chr c)
      else None)"

definition atom :: "regex \<Rightarrow> pstate \<Rightarrow> pstate option" where
  "atom a st = Some (st\<lparr>pmode := Normal, cur := a # cur st, rep := False\<rparr>)"

definition push :: "nat option \<Rightarrow> pstate \<Rightarrow> pstate" where
  "push k st = st\<lparr>pmode := Normal, cur := [], alts := [],
                   stack := (k, cur st, alts st) # stack st, rep := False\<rparr>"

definition push_cap :: "pstate \<Rightarrow> pstate" where
  "push_cap st = push (Some (Suc (ncap st))) (st\<lparr>ncap := Suc (ncap st)\<rparr>)"

definition close :: "pstate \<Rightarrow> pstate option" where
  "close st =
     (case stack st of
        [] \<Rightarrow> None
      | (k, c, as) # fs \<Rightarrow>
          let r = collapse (alts st) (cur st);
              a = (case k of None \<Rightarrow> r | Some n \<Rightarrow> Grp n r)
          in Some (st\<lparr>pmode := Normal, cur := a # c, alts := as, stack := fs, rep := False\<rparr>))"

definition bar :: "pstate \<Rightarrow> pstate option" where
  "bar st = Some (st\<lparr>pmode := Normal, cur := [], alts := mkseq (rev (cur st)) # alts st,
                    rep := False\<rparr>)"

definition repeat :: "(regex \<Rightarrow> regex) \<Rightarrow> pstate \<Rightarrow> pstate option" where
  "repeat f st =
     (if rep st then None
      else case cur st of
             [] \<Rightarrow> None
           | a # c \<Rightarrow> Some (st\<lparr>pmode := Normal, cur := f a # c, rep := True\<rparr>))"

definition normal :: "pstate \<Rightarrow> char \<Rightarrow> pstate option" where
  "normal st c =
     (if c = CHR 0x5C then Some (st\<lparr>pmode := Esc\<rparr>)
      else if c = CHR ''['' then Some (st\<lparr>pmode := ClsOpen\<rparr>)
      else if c = CHR ''('' then Some (st\<lparr>pmode := Open\<rparr>)
      else if c = CHR '')'' then close st
      else if c = CHR ''|'' then bar st
      else if c = CHR ''*'' then repeat Star st
      else if c = CHR ''+'' then repeat Plus st
      else if c = CHR ''?'' then repeat Opt st
      else if c = CHR ''{'' then None
      else if c = CHR ''^'' then atom Bol st
      else if c = CHR ''$'' then atom Eol st
      else if c = CHR ''.'' then atom Dot st
      else if is_ascii c then atom (Chr c) st
      else None)"

text \<open>
  Inside a bracket class: a character is held back until the next one tells whether it
  opens a range; \<^verbatim>\<open>]\<close> closes the class unless it is the first character.
\<close>

definition in_cls :: "bool \<Rightarrow> bool \<Rightarrow> (char \<times> char) list \<Rightarrow> pend \<Rightarrow> pstate \<Rightarrow> char \<Rightarrow> pstate option" where
  "in_cls neg first rs p st c =
     (if \<not> is_ascii c \<or> c = CHR 0x5C \<or> c = CHR ''['' then None
      else case p of
        LoDash l \<Rightarrow>
          if c = CHR '']'' then atom (Cls neg (rs @ [(l, l), (CHR ''-'', CHR ''-'')])) st
          else if (of_char c :: nat) < of_char l then None
          else Some (st\<lparr>pmode := InCls neg False (rs @ [(l, c)]) NoPend\<rparr>)
      | Lo l \<Rightarrow>
          if c = CHR ''-'' then Some (st\<lparr>pmode := InCls neg False rs (LoDash l)\<rparr>)
          else if c = CHR '']'' then atom (Cls neg (rs @ [(l, l)])) st
          else Some (st\<lparr>pmode := InCls neg False (rs @ [(l, l)]) (Lo c)\<rparr>)
      | NoPend \<Rightarrow>
          if c = CHR '']'' \<and> \<not> first then atom (Cls neg rs) st
          else Some (st\<lparr>pmode := InCls neg False rs (Lo c)\<rparr>))"

definition step :: "pstate \<Rightarrow> char \<Rightarrow> pstate option" where
  "step st c =
     (case pmode st of
        Normal \<Rightarrow> normal st c
      | Esc \<Rightarrow> (case escape c of None \<Rightarrow> None | Some a \<Rightarrow> atom a st)
      | Open \<Rightarrow> if c = CHR ''?'' then Some (st\<lparr>pmode := OpenQ\<rparr>) else normal (push_cap st) c
      | OpenQ \<Rightarrow> if c = CHR '':'' then Some (push None st) else None
      | ClsOpen \<Rightarrow>
          if c = CHR ''^'' then Some (st\<lparr>pmode := InCls True True [] NoPend\<rparr>)
          else in_cls False True [] NoPend st c
      | InCls neg first rs p \<Rightarrow> in_cls neg first rs p st c)"

fun run :: "pstate option \<Rightarrow> string \<Rightarrow> pstate option" where
  "run st [] = st"
| "run None (c # s) = None"
| "run (Some st) (c # s) = run (step st c) s"

definition init :: pstate where
  "init = \<lparr>pmode = Normal, cur = [], alts = [], stack = [], ncap = 0, rep = False\<rparr>"

definition finish :: "pstate option \<Rightarrow> regex option" where
  "finish ost = (case ost of
       None \<Rightarrow> None
     | Some st \<Rightarrow> if pmode st = Normal \<and> stack st = [] then Some (collapse (alts st) (cur st))
                  else None)"

definition MustCompile :: "string \<Rightarrow> regex option" where
  "MustCompile s = finish (run (Some init) s)"

subsection \<open>Where a match ends\<close>

declare ends_of.simps(9, 10) [simp del]

text \<open>\<open>st'\<close> lies ahead of \<open>st\<close> in the same text.\<close>

definition ahead :: "mstate \<Rightarrow> mstate \<Rightarrow> bool" where
  "ahead st st' =
     (fst st \<le> fst st' \<and> fst st' - fst st \<le> length (fst (snd st)) \<and>
      fst (snd st') = drop (fst st' - fst st) (fst (snd st)))"

lemma ahead_refl: "ahead st st"
  by (simp add: ahead_def)

lemma ahead_trans: "ahead a b \<Longrightarrow> ahead b c \<Longrightarrow> ahead a c"
  unfolding ahead_def by (simp add: drop_drop) arith

lemma ahead_Suc: "ahead (i, x # xs, cs) (Suc i, xs, cs')"
  by (simp add: ahead_def)

lemma ends_ahead: "st' \<in> set (ends_of r st) \<Longrightarrow> ahead st st'"
proof (induction r st arbitrary: st' rule: ends_of.induct)
  case (1 st)
  then show ?case by (simp add: ahead_refl)
next
  case (2 c i s cs)
  then show ?case by (cases s) (auto split: if_splits simp: ahead_Suc)
next
  case (3 i s cs)
  then show ?case by (cases s) (auto split: if_splits simp: ahead_Suc)
next
  case (4 neg rs i s cs)
  then show ?case by (cases s) (auto split: if_splits simp: ahead_Suc)
next
  case (5 i s cs)
  then show ?case by (auto split: if_splits simp: ahead_refl)
next
  case (6 i s cs)
  then show ?case by (auto split: if_splits simp: ahead_refl)
next
  case (7 a b st)
  then obtain m where m: "m \<in> set (ends_of a st)" and s: "st' \<in> set (ends_of b m)"
    by auto
  from "7.IH"(1)[OF m] "7.IH"(2)[OF m s] show ?case
    by (rule ahead_trans)
next
  case (8 a b st)
  from "8.prems" have "st' \<in> set (ends_of a st) \<or> st' \<in> set (ends_of b st)"
    by simp
  then show ?case
    using "8.IH" by blast
next
  case (9 a st)
  show ?case
  proof (cases "st' = st")
    case True
    then show ?thesis by (simp add: ahead_refl)
  next
    case False
    with "9.prems" obtain m where m: "m \<in> set (ends_of a st)"
      and lt: "length (fst (snd m)) < length (fst (snd st))"
      and s: "st' \<in> set (ends_of (Star a) m)"
      by (subst (asm) ends_of.simps(9)) (auto split: if_splits)
    from "9.IH"(1)[OF m] "9.IH"(2)[OF m lt s] show ?thesis
      by (rule ahead_trans)
  qed
next
  case (10 a st)
  then obtain m where m: "m \<in> set (ends_of a st)" and s: "st' \<in> set (ends_of (Star a) m)"
    by (auto simp: ends_of.simps(10))
  from "10.IH"(1)[OF m] "10.IH"(2)[OF m s] show ?case
    by (rule ahead_trans)
next
  case (11 a st)
  from "11.prems" have "st' \<in> set (ends_of a st) \<or> st' = st"
    by auto
  then show ?case
    using "11.IH" ahead_refl by blast
next
  case (12 n a i s cs)
  from "12.prems" obtain j s' cs' where m: "(j, s', cs') \<in> set (ends_of a (i, s, cs))"
    and e: "st' = (j, s', cs'(n \<mapsto> take (j - i) s))"
    by auto
  from "12.IH"[OF m] e show ?case
    by (simp add: ahead_def)
qed

lemma ends_rest:
  "(j, s', cs') \<in> set (ends_of r (i, s, cs)) \<Longrightarrow> i \<le> j \<and> j - i \<le> length s \<and> s' = drop (j - i) s"
  using ends_ahead[of "(j, s', cs')" r "(i, s, cs)"] by (simp add: ahead_def)


lemma search_rest:
  "search re i s = Some (a, b, s', cs) \<Longrightarrow>
     i \<le> a \<and> a \<le> b \<and> b - i \<le> length s \<and> s' = drop (b - i) s"
proof (induction re i s rule: search.induct)
  case (1 re i)
  then have "(b, s', cs) \<in> set (ends_of re (i, [], Map.empty))" and "a = i"
    by (auto split: list.splits)
  then show ?case
    using ends_rest[of b s' cs re i "[]" Map.empty] by simp
next
  case (2 re i x xs)
  show ?case
  proof (cases "ends_of re (i, x # xs, Map.empty)")
    case Nil
    with "2.prems" have "search re (Suc i) xs = Some (a, b, s', cs)"
      by simp
    from "2.IH"[OF Nil this]
    have *: "Suc i \<le> a" "a \<le> b" "b - Suc i \<le> length xs" "s' = drop (b - Suc i) xs"
      by simp_all
    from *(1,2) have "b - i = Suc (b - Suc i)"
      by arith
    with * show ?thesis
      by simp
  next
    case (Cons m list)
    with "2.prems" have "(b, s', cs) \<in> set (ends_of re (i, x # xs, Map.empty))" and "a = i"
      by auto
    then show ?thesis
      using ends_rest[of b s' cs re i "x # xs" Map.empty] by simp
  qed
qed

subsection \<open>All matches of an expression in a text\<close>

text \<open>
  \<^verbatim>\<open>FindAllStringSubmatch\<close> and \<^verbatim>\<open>ReplaceAllStringFunc\<close> walk the text the same way:
  search from the current offset; an empty match right after the previous match is
  dropped; the next search starts where the match ended, or one character further when
  the match ended where the search began.
\<close>

function all_matches :: "regex \<Rightarrow> nat \<Rightarrow> string \<Rightarrow> nat option \<Rightarrow> (nat \<times> mstate) list" where
  "all_matches re pos s prev =
     (case search re pos s of
        None \<Rightarrow> []
      | Some (a, b, s', cs) \<Rightarrow>
          (if b = pos \<and> prev = Some a then [] else [(a, b, s', cs)]) @
          (if b = pos then (case s of [] \<Rightarrow> [] | x # t \<Rightarrow> all_matches re (Suc pos) t (Some b))
           else all_matches re b s' (Some b)))"
  by pat_completeness auto
termination
proof (relation "measure (\<lambda>(re, pos, s, prev). length s)", goal_cases)
  case 1
  show ?case by simp
next
  case (2 re pos s prev x2 a y b z s' cs x t)
  then show ?case by simp
next
  case (3 re pos s prev x2 a y b z s' cs)
  then have "search re pos s = Some (a, b, s', cs)" by simp
  from search_rest[OF this] 3 show ?case by auto
qed

declare all_matches.simps [simp del]

definition FindAllStringSubmatch :: "regex \<Rightarrow> string \<Rightarrow> string list list" where
  "FindAllStringSubmatch re s = map (submatches re 0 s) (all_matches re 0 s None)"

text \<open>
  The errors of the package: the error of the parser, and the error that \<^verbatim>\<open>fmt.Errorf\<close>
  builds from a format and a string, kept as the two.
\<close>

datatype error = InvalidPatternError string | Errorf string string

datatype panic =
    IndexOutOfRange
  | NilDereference
  | PanicError error
  | PanicText string
  | PanicValue string

text \<open>
  \<^verbatim>\<open>ReplaceAllStringFunc\<close> copies the text between the matches and puts, for each
  match, what the callback returns for the matched text. The callback the parser passes
  counts its calls in a variable it closes over and may panic, so here it takes its
  state and returns the new one, or the panic.
\<close>

fun replace_all :: "string \<Rightarrow> nat \<Rightarrow> (nat \<times> mstate) list \<Rightarrow>
    ('s \<Rightarrow> string \<Rightarrow> panic + 's \<times> string) \<Rightarrow> 's \<Rightarrow> panic + string" where
  "replace_all src lastEnd [] repl \<sigma> = Inr (drop lastEnd src)"
| "replace_all src lastEnd ((a, b, m) # rest) repl \<sigma> =
     (case repl \<sigma> (take (b - a) (drop a src)) of
        Inl p \<Rightarrow> Inl p
      | Inr (\<sigma>', t) \<Rightarrow>
          (case replace_all src b rest repl \<sigma>' of
             Inl p \<Rightarrow> Inl p
           | Inr out \<Rightarrow> Inr (take (a - lastEnd) (drop lastEnd src) @ t @ out)))"

definition ReplaceAllStringFunc :: "regex \<Rightarrow> string \<Rightarrow>
    ('s \<Rightarrow> string \<Rightarrow> panic + 's \<times> string) \<Rightarrow> 's \<Rightarrow> panic + string" where
  "ReplaceAllStringFunc re src repl \<sigma> = replace_all src 0 (all_matches re 0 src None) repl \<sigma>"

section \<open>The pattern parser\<close>

text \<open>Reading a slice at an index panics outside the slice.\<close>

definition index :: "'a list \<Rightarrow> int \<Rightarrow> panic + 'a" where
  "index xs i = (if 0 \<le> i \<and> nat i < length xs then Inr (xs ! nat i) else Inl IndexOutOfRange)"

definition defaultParserRegexp :: regex where
  "defaultParserRegexp = the (MustCompile ''<([^/:]+)(:([^/]+))?>'')"

text \<open>The loop that collects \<^verbatim>\<open>match[1]\<close> of every match.\<close>

fun collect_params :: "string list list \<Rightarrow> panic + string list" where
  "collect_params [] = Inr []"
| "collect_params (m # rest) =
     (case index m 1 of
        Inl p \<Rightarrow> Inl p
      | Inr name \<Rightarrow> (case collect_params rest of Inl p \<Rightarrow> Inl p | Inr ns \<Rightarrow> Inr (name # ns)))"

text \<open>
  The callback of \<^verbatim>\<open>Parse\<close>: it advances the counter \<open>i\<close> and reads the third group of
  the \<open>i\<close>-th match.
\<close>

definition convert :: "string list list \<Rightarrow> int \<Rightarrow> string \<Rightarrow> panic + int \<times> string" where
  "convert matches i any =
     (case index matches (i + 1) of
        Inl p \<Rightarrow> Inl p
      | Inr m \<Rightarrow>
          (case index m 3 of
             Inl p \<Rightarrow> Inl p
           | Inr sub \<Rightarrow> Inr (i + 1, if sub \<noteq> [] then ''('' @ sub @ '')'' else ''([^/]+)'')))"

text \<open>
  \<^verbatim>\<open>Parser.Parse\<close>, for a parser built on the expression \<open>reg\<close>. The result is Go's
  tuple \<^verbatim>\<open>(regexp, params, hasTrailingSlashes, err)\<close>, or the run-time panic of an index
  out of range.
\<close>

type_synonym parsed = "string \<times> string list \<times> bool \<times> error option"

definition Parse :: "regex \<Rightarrow> string \<Rightarrow> panic + parsed" where
  "Parse reg pattern =
     (if pattern = [] \<or> hd pattern \<noteq> CHR ''/''
      then Inr ([], [], False, Some (InvalidPatternError pattern))
      else
        let hasTrailingSlashes = (pattern \<noteq> ''/'' \<and> last pattern = CHR ''/'');
            pattern = (if hasTrailingSlashes then butlast pattern else pattern);
            matches = FindAllStringSubmatch reg pattern
        in if matches \<noteq> [] then
             (case collect_params matches of
                Inl p \<Rightarrow> Inl p
              | Inr params \<Rightarrow>
                  (case ReplaceAllStringFunc reg pattern (convert matches) (- 1) of
                     Inl p \<Rightarrow> Inl p
                   | Inr regexp \<Rightarrow> Inr (regexp @ ''/?'', params, hasTrailingSlashes, None)))
           else Inr (pattern @ ''/?'', [], hasTrailingSlashes, None))"

definition NewParser :: "string \<Rightarrow> panic + parsed" where
  "NewParser = Parse defaultParserRegexp"

section \<open>Requests, responses and handlers\<close>

text \<open>
  The transport is outside the router. A request is its method, the path of its URL and
  the parameters its context carries under \<^verbatim>\<open>contextParamsKey\<close>; URLs are paths only,
  so \<^verbatim>\<open>URL.String()\<close> is the path. A response writer records the status code, the
  headers and the body, as \<^verbatim>\<open>httptest.ResponseRecorder\<close> does. A handler works on the
  writer and returns, or panics part-way.
\<close>

record request =
  Method :: string
  URL_Path :: string
  ctx_params :: "(string \<rightharpoonup> string) option"

record response =
  Code :: nat
  wroteHeader :: bool
  Header :: "string \<rightharpoonup> string"
  Body :: string

datatype outcome = Return response | Panic panic response

type_synonym Handler = "response \<Rightarrow> request \<Rightarrow> outcome"

type_synonym Middleware = "Handler \<Rightarrow> Handler"

definition NewRecorder :: response where
  "NewRecorder = \<lparr>Code = 200, wroteHeader = False, Header = Map.empty, Body = []\<rparr>"

definition WriteHeader :: "nat \<Rightarrow> response \<Rightarrow> response" where
  "WriteHeader c w = (if wroteHeader w then w else w\<lparr>Code := c, wroteHeader := True\<rparr>)"

definition Write :: "string \<Rightarrow> response \<Rightarrow> response" where
  "Write b w = (let w' = WriteHeader 200 w in w'\<lparr>Body := Body w' @ b\<rparr>)"

definition Header_Set :: "string \<Rightarrow> string \<Rightarrow> response \<Rightarrow> response" where
  "Header_Set k v w = w\<lparr>Header := (Header w)(k \<mapsto> v)\<rparr>"

text \<open>\<^verbatim>\<open>http.Redirect\<close>, as far as the router's tests observe it: the location and the code.\<close>

definition Redirect :: "response \<Rightarrow> request \<Rightarrow> string \<Rightarrow> nat \<Rightarrow> response" where
  "Redirect w req url code = WriteHeader code (Header_Set ''Location'' url w)"

definition http_Error :: "response \<Rightarrow> string \<Rightarrow> nat \<Rightarrow> response" where
  "http_Error w msg code =
     Write (msg @ [CHR 0x0A])
       (WriteHeader code
         (Header_Set ''X-Content-Type-Options'' ''nosniff''
           (Header_Set ''Content-Type'' ''text/plain; charset=utf-8'' w)))"

definition NotFound :: "response \<Rightarrow> request \<Rightarrow> response" where
  "NotFound w req = http_Error w ''404 page not found'' 404"

definition StatusMovedPermanently :: nat where "StatusMovedPermanently = 301"
definition StatusPermanentRedirect :: nat where "StatusPermanentRedirect = 308"
definition StatusMethodNotAllowed :: nat where "StatusMethodNotAllowed = 405"

definition MethodGet :: string where "MethodGet = ''GET''"
definition MethodPost :: string where "MethodPost = ''POST''"
definition MethodPut :: string where "MethodPut = ''PUT''"
definition MethodDelete :: string where "MethodDelete = ''DELETE''"
definition MethodOptions :: string where "MethodOptions = ''OPTIONS''"

fun Join :: "string list \<Rightarrow> string \<Rightarrow> string" where
  "Join [] sep = []"
| "Join [x] sep = x"
| "Join (x # y # ys) sep = x @ sep @ Join (y # ys) sep"

section \<open>The router\<close>

record route =
  reg :: string
  params :: "string list"
  hasTrailingSlashes :: bool
  middleware :: "Middleware list"
  handler :: Handler
  finalHandler :: "Handler option"

text \<open>
  A router owns its group routers, so the routers form a tree; Go's maps from method and
  from prefix are association lists (their order stands for the unspecified order in
  which Go ranges over a map). An entry of a route list is a route or \<^verbatim>\<open>nil\<close>. The
  \<^verbatim>\<open>parent\<close> pointer is not a field: the functions that follow it take the chain of
  ancestors, nearest first.
\<close>

datatype Router = Router
  (Middleware: "Middleware list")
  (combinedRegexps: "(string \<times> regex) list")
  (groups: "(string \<times> Router) list")
  (routes: "(string \<times> route option list) list")
  (parser: "string \<Rightarrow> panic + parsed")
  (PanicHandler: "(response \<Rightarrow> request \<Rightarrow> panic \<Rightarrow> outcome) option")
  (OptionsHandler: "(response \<Rightarrow> request \<Rightarrow> string list \<Rightarrow> outcome) option")
  (MethodNotAllowedHandler: "(response \<Rightarrow> request \<Rightarrow> string list \<Rightarrow> outcome) option")
  (NotFoundHandler: "Handler option")
  (TrailingSlashesPolicy: "8 word")

definition IgnoreTrailingSlashes :: "8 word" where "IgnoreTrailingSlashes = 0"
definition AppendTrailingSlashes :: "8 word" where "AppendTrailingSlashes = 1"
definition RemoveTrailingSlashes :: "8 word" where "RemoveTrailingSlashes = 2"
definition StrictTrailingSlashes :: "8 word" where "StrictTrailingSlashes = 3"

text \<open>Assignments to the fields of a router.\<close>

fun set_Middleware :: "Middleware list \<Rightarrow> Router \<Rightarrow> Router" where
  "set_Middleware v (Router mw cr gs rs ps ph oh mh nh ts) = Router v cr gs rs ps ph oh mh nh ts"

fun set_combinedRegexps :: "(string \<times> regex) list \<Rightarrow> Router \<Rightarrow> Router" where
  "set_combinedRegexps v (Router mw cr gs rs ps ph oh mh nh ts) = Router mw v gs rs ps ph oh mh nh ts"

fun set_groups :: "(string \<times> Router) list \<Rightarrow> Router \<Rightarrow> Router" where
  "set_groups v (Router mw cr gs rs ps ph oh mh nh ts) = Router mw cr v rs ps ph oh mh nh ts"

fun set_routes :: "(string \<times> route option list) list \<Rightarrow> Router \<Rightarrow> Router" where
  "set_routes v (Router mw cr gs rs ps ph oh mh nh ts) = Router mw cr gs v ps ph oh mh nh ts"

fun set_parser :: "(string \<Rightarrow> panic + parsed) \<Rightarrow> Router \<Rightarrow> Router" where
  "set_parser v (Router mw cr gs rs ps ph oh mh nh ts) = Router mw cr gs rs v ph oh mh nh ts"

fun set_PanicHandler :: "(response \<Rightarrow> request \<Rightarrow> panic \<Rightarrow> outcome) option \<Rightarrow> Router \<Rightarrow> Router" where
  "set_PanicHandler v (Router mw cr gs rs ps ph oh mh nh ts) = Router mw cr gs rs ps v oh mh nh ts"

fun set_OptionsHandler :: "(response \<Rightarrow> request \<Rightarrow> string list \<Rightarrow> outcome) option \<Rightarrow> Router \<Rightarrow> Router" where
  "set_OptionsHandler v (Router mw cr gs rs ps ph oh mh nh ts) = Router mw cr gs rs ps ph v mh nh ts"

fun set_MethodNotAllowedHandler :: "(response \<Rightarrow> request \<Rightarrow> string list \<Rightarrow> outcome) option \<Rightarrow> Router \<Rightarrow> Router" where
  "set_MethodNotAllowedHandler v (Router mw cr gs rs ps ph oh mh nh ts) = Router mw cr gs rs ps ph oh v nh ts"

fun set_NotFoundHandler :: "Handler option \<Rightarrow> Router \<Rightarrow> Router" where
  "set_NotFoundHandler v (Router mw cr gs rs ps ph oh mh nh ts) = Router mw cr gs rs ps ph oh mh v ts"

fun set_TrailingSlashesPolicy :: "8 word \<Rightarrow> Router \<Rightarrow> Router" where
  "set_TrailingSlashesPolicy v (Router mw cr gs rs ps ph oh mh nh ts) = Router mw cr gs rs ps ph oh mh nh v"

definition NewWithParser :: "(string \<Rightarrow> panic + parsed) \<Rightarrow> Router" where
  "NewWithParser p = Router [] [] [] [] p None None None None IgnoreTrailingSlashes"

definition New :: Router where
  "New = NewWithParser NewParser"

text \<open>\<^verbatim>\<open>r.routes[method]\<close>: the \<^verbatim>\<open>nil\<close> slice when the method has no entry.\<close>

definition routes_of :: "Router \<Rightarrow> string \<Rightarrow> route option list" where
  "routes_of r method = (case map_of (routes r) method of None \<Rightarrow> [] | Some l \<Rightarrow> l)"

definition Group :: "string \<Rightarrow> Router \<Rightarrow> panic + Router" where
  "Group prefix r =
     (if prefix = [] then Inl (PanicText ''the group prefix MUST NOT be empty'')
      else if CHR ''/'' \<in> set prefix
        then Inl (PanicText (''the group prefix MUST NOT contains '' @ [CHR 0x27] @ ''/'' @ [CHR 0x27]))
      else if map_of (groups r) prefix \<noteq> None
        then Inl (PanicError (Errorf ''the group which prefix equal to %q already exists'' prefix))
      else Inr (set_groups (AList.update prefix (set_parser (parser r) New) (groups r)) r))"

definition Handle :: "string \<Rightarrow> string \<Rightarrow> Handler \<Rightarrow> Middleware list \<Rightarrow> Router \<Rightarrow> panic + Router" where
  "Handle method pattern h mws r =
     (let r1 = (if map_of (routes r) method = None
                then set_routes (AList.update method [None] (routes r)) r else r)
      in case parser r1 pattern of
           Inl p \<Rightarrow> Inl p
         | Inr (rg, ps, hts, err) \<Rightarrow>
             (case err of
                Some e \<Rightarrow> Inl (PanicError e)
              | None \<Rightarrow>
                  let rt = \<lparr>reg = rg, params = ps, hasTrailingSlashes = hts, middleware = mws,
                            handler = h, finalHandler = None\<rparr>
                  in Inr (set_routes
                       (AList.update method
                          (routes_of r1 method @ [Some rt] @ replicate (length (params rt)) None)
                          (routes r1)) r1)))"

definition Delete :: "string \<Rightarrow> Handler \<Rightarrow> Middleware list \<Rightarrow> Router \<Rightarrow> panic + Router" where
  "Delete = Handle MethodDelete"

definition Get :: "string \<Rightarrow> Handler \<Rightarrow> Middleware list \<Rightarrow> Router \<Rightarrow> panic + Router" where
  "Get = Handle MethodGet"

definition Post :: "string \<Rightarrow> Handler \<Rightarrow> Middleware list \<Rightarrow> Router \<Rightarrow> panic + Router" where
  "Post = Handle MethodPost"

definition Put :: "string \<Rightarrow> Handler \<Rightarrow> Middleware list \<Rightarrow> Router \<Rightarrow> panic + Router" where
  "Put = Handle MethodPut"

text \<open>
  A group router is reached from the root by the prefixes on the way to it; \<open>in_group\<close>
  runs an operation on the router so named, which is how a call on the pointer that
  \<^verbatim>\<open>Group\<close> returned shows in the tree. \<open>build\<close> runs a sequence of such calls and
  stops at the first panic.
\<close>

fun in_group :: "string list \<Rightarrow> (Router \<Rightarrow> panic + Router) \<Rightarrow> Router \<Rightarrow> panic + Router" where
  "in_group [] f r = f r"
| "in_group (p # ps) f r =
     (case map_of (groups r) p of
        None \<Rightarrow> Inl NilDereference
      | Some g \<Rightarrow>
          (case in_group ps f g of
             Inl e \<Rightarrow> Inl e
           | Inr g' \<Rightarrow> Inr (set_groups (AList.update p g' (groups r)) r)))"

fun build :: "(Router \<Rightarrow> panic + Router) list \<Rightarrow> Router \<Rightarrow> panic + Router" where
  "build [] r = Inr r"
| "build (f # fs) r = (case f r of Inl e \<Rightarrow> Inl e | Inr r' \<Rightarrow> build fs r')"

subsection \<open>Preparation\<close>

text \<open>
  \<^verbatim>\<open>r.middleware()\<close>: the router's own middleware after that of its ancestors, the root's
  first.
\<close>

fun Router_middleware :: "Router \<Rightarrow> Router list \<Rightarrow> Middleware list" where
  "Router_middleware r [] = Middleware r @ []"
| "Router_middleware r (p # ps) = Router_middleware p ps @ (Middleware r @ [])"

text \<open>The loop \<^verbatim>\<open>for j := len(mw) - 1; j >= 0; j-- { handler = mw[j](handler) }\<close>.\<close>

fun chain :: "Middleware list \<Rightarrow> Handler \<Rightarrow> Handler" where
  "chain [] h = h"
| "chain (m # mws) h = m (chain mws h)"

definition prepare_route :: "Middleware list \<Rightarrow> route \<Rightarrow> route" where
  "prepare_route mw rt = rt\<lparr>finalHandler := Some (chain mw (chain (middleware rt) (handler rt)))\<rparr>"

fun regs_of :: "route option list \<Rightarrow> string list" where
  "regs_of [] = []"
| "regs_of (None # rts) = regs_of rts"
| "regs_of (Some rt # rts) = (''('' @ reg rt @ '')'') # regs_of rts"

definition combine :: "route option list \<Rightarrow> string" where
  "combine rts = ''^(?:'' @ Join (regs_of rts) ''|'' @ '')$''"

type_synonym tables = "(string \<times> route option list) list \<times> (string \<times> regex) list"

text \<open>
  One round of the loop over the methods: the routes of the method get their final
  handlers and the method its combined expression. The function \<open>compile\<close> stands for
  \<^verbatim>\<open>regexp.MustCompile\<close>, with \<open>None\<close> for its panic; \<^verbatim>\<open>Prepare\<close> below passes the
  model of it, and what is proved for every \<open>compile\<close> holds whatever expressions the
  library accepts.
\<close>

definition prepare_method :: "(string \<Rightarrow> regex option) \<Rightarrow> Middleware list \<Rightarrow> string \<Rightarrow> tables \<Rightarrow>
    tables option" where
  "prepare_method compile mw method t =
     (let rts = (case map_of (fst t) method of None \<Rightarrow> [] | Some l \<Rightarrow> l)
      in case compile (combine rts) of
           None \<Rightarrow> None
         | Some re \<Rightarrow>
             Some (AList.update method (map (map_option (prepare_route mw)) rts) (fst t),
                   AList.update method re (snd t)))"

fun prepare_methods :: "(string \<Rightarrow> regex option) \<Rightarrow> Middleware list \<Rightarrow> string list \<Rightarrow> tables \<Rightarrow>
    tables option" where
  "prepare_methods compile mw [] t = Some t"
| "prepare_methods compile mw (m # methods) t =
     (case prepare_method compile mw m t of None \<Rightarrow> None | Some t' \<Rightarrow> prepare_methods compile mw methods t')"

fun prepare :: "(string \<Rightarrow> regex option) \<Rightarrow> Router list \<Rightarrow> Router \<Rightarrow> Router option"
  and prepare_groups :: "(string \<Rightarrow> regex option) \<Rightarrow> Router list \<Rightarrow> (string \<times> Router) list \<Rightarrow>
    (string \<times> Router) list option" where
  "prepare compile parents (Router mw cr gs rs ps ph oh mh nh ts) =
     (case prepare_methods compile (Router_middleware (Router mw cr gs rs ps ph oh mh nh ts) parents)
             (map fst rs) (rs, cr) of
        None \<Rightarrow> None
      | Some (rs', cr') \<Rightarrow>
          (case prepare_groups compile (Router mw cr gs rs ps ph oh mh nh ts # parents) gs of
             None \<Rightarrow> None
           | Some gs' \<Rightarrow> Some (Router mw cr' gs' rs' ps ph oh mh nh ts)))"
| "prepare_groups compile parents [] = Some []"
| "prepare_groups compile parents ((p, g) # gs) =
     (case prepare compile parents g of
        None \<Rightarrow> None
      | Some g' \<Rightarrow>
          (case prepare_groups compile parents gs of None \<Rightarrow> None | Some gs' \<Rightarrow> Some ((p, g') # gs')))"

definition Prepare :: "Router \<Rightarrow> Router option" where
  "Prepare r = prepare MustCompile [] r"

subsection \<open>Dispatch\<close>

function seg_end :: "string \<Rightarrow> nat \<Rightarrow> nat" where
  "seg_end path i = (if i < length path \<and> path ! i \<noteq> CHR ''/'' then seg_end path (Suc i) else i)"
  by pat_completeness auto
termination
  by (relation "measure (\<lambda>(path, i). length path - i)") auto

declare seg_end.simps [simp del]

text \<open>
  \<^verbatim>\<open>fetchGroup\<close>: \<open>r\<close> is the router the request came to, \<open>router\<close> the group reached so
  far. The jump back to \<^verbatim>\<open>walk\<close> is the recursive call.
\<close>

function walk :: "Router \<Rightarrow> Router \<Rightarrow> string \<Rightarrow> Router \<times> string" where
  "walk r router path =
     (if path \<noteq> ''/'' \<and> length (groups r) > 0 then
        (if seg_end path 1 > 1 then
           (case map_of (groups router) (take (seg_end path 1 - 1) (drop 1 path)) of
              Some grp \<Rightarrow>
                if seg_end path 1 < length path then walk r grp (drop (seg_end path 1) path)
                else (grp, ''/'')
            | None \<Rightarrow> (router, path))
         else (router, path))
      else (router, path))"
  by pat_completeness auto
termination
  by (relation "measure (\<lambda>(r, router, path). length path)") auto

declare walk.simps [simp del]

definition fetchGroup :: "Router \<Rightarrow> string \<Rightarrow> Router \<times> string" where
  "fetchGroup r path = walk r r path"

definition retrieveMethods :: "Router \<Rightarrow> string \<Rightarrow> string list" where
  "retrieveMethods r path = map fst (filter (\<lambda>(method, re). MatchString re path) (combinedRegexps r))"

text \<open>The scan \<^verbatim>\<open>for ; i < len(matches) && matches[i] == ""; i++ {}\<close>.\<close>

function first_nonempty :: "string list \<Rightarrow> nat \<Rightarrow> nat" where
  "first_nonempty matches i =
     (if i < length matches \<and> matches ! i = [] then first_nonempty matches (Suc i) else i)"
  by pat_completeness auto
termination
  by (relation "measure (\<lambda>(matches, i). length matches - i)") auto

declare first_nonempty.simps [simp del]

text \<open>The loop \<^verbatim>\<open>for _, name := range route.params { i++; params[name] = matches[i] }\<close>.\<close>

fun bind_params :: "string list \<Rightarrow> string list \<Rightarrow> nat \<Rightarrow> (string \<rightharpoonup> string) \<Rightarrow>
    panic + (string \<rightharpoonup> string)" where
  "bind_params [] matches i ps = Inr ps"
| "bind_params (name # names) matches i ps =
     (if Suc i < length matches
      then bind_params names matches (Suc i) (ps(name \<mapsto> matches ! Suc i))
      else Inl IndexOutOfRange)"

text \<open>
  The block that handles trailing slashes. \<open>Inl\<close> is a return from \<^verbatim>\<open>ServeHTTP\<close>;
  \<open>Inr\<close> goes on to the handler, with the writer and the request as the block left them.
\<close>

definition handle_slashes :: "Router \<Rightarrow> route option \<Rightarrow> string \<Rightarrow> response \<Rightarrow> request \<Rightarrow>
    (request \<times> outcome) + (response \<times> request)" where
  "handle_slashes r rt method w req =
     (if TrailingSlashesPolicy r \<noteq> IgnoreTrailingSlashes then
        let code = (if method \<noteq> MethodGet then StatusPermanentRedirect else StatusMovedPermanently);
            path = URL_Path req
        in if path = [] then Inl (req, Panic IndexOutOfRange w)
           else
             let isRootPath = (path = ''/'');
                 endWithSlashes = (last path = CHR ''/'');
                 stripped = req\<lparr>URL_Path := butlast path\<rparr>;
                 appended = req\<lparr>URL_Path := path @ ''/''\<rparr>
             in if TrailingSlashesPolicy r = RemoveTrailingSlashes \<and> endWithSlashes \<and> \<not> isRootPath
                then Inl (stripped, Return (Redirect w stripped (URL_Path stripped) code))
                else if TrailingSlashesPolicy r = AppendTrailingSlashes \<and> \<not> endWithSlashes \<and> \<not> isRootPath
                then Inl (appended, Return (Redirect w appended (URL_Path appended) code))
                else if TrailingSlashesPolicy r = StrictTrailingSlashes \<and> \<not> isRootPath
                then (case rt of
                        None \<Rightarrow> Inl (req, Panic NilDereference w)
                      | Some route \<Rightarrow>
                          if hasTrailingSlashes route \<and> \<not> endWithSlashes
                          then Inl (appended, Return (Redirect w appended (URL_Path appended) code))
                          else if \<not> hasTrailingSlashes route \<and> endWithSlashes
                          then Inr (Redirect w stripped (URL_Path stripped) code, stripped)
                          else Inr (w, req))
                else Inr (w, req)
      else Inr (w, req))"

text \<open>The rest of the branch of a match: the parameters, then the final handler.\<close>

definition invoke :: "route option \<Rightarrow> string list \<Rightarrow> nat \<Rightarrow> response \<Rightarrow> request \<Rightarrow> request \<times> outcome" where
  "invoke rt matches i w req =
     (case rt of
        None \<Rightarrow> (req, Panic NilDereference w)
      | Some route \<Rightarrow>
          (case (if length (params route) > 0
                 then (case bind_params (params route) matches i Map.empty of
                         Inl p \<Rightarrow> Inl p
                       | Inr ps \<Rightarrow> Inr (req\<lparr>ctx_params := Some ps\<rparr>))
                 else Inr req) of
             Inl p \<Rightarrow> (req, Panic p w)
           | Inr req' \<Rightarrow>
               (case finalHandler route of
                  None \<Rightarrow> (req', Panic NilDereference w)
                | Some h \<Rightarrow> (req', h w req'))))"

definition dispatch :: "Router \<Rightarrow> Router \<Rightarrow> string \<Rightarrow> string list \<Rightarrow> response \<Rightarrow> request \<Rightarrow>
    request \<times> outcome" where
  "dispatch r router method matches w req =
     (let i = first_nonempty matches 1
      in case index (routes_of router method) (int i) of
           Inl p \<Rightarrow> (req, Panic p w)
         | Inr rt \<Rightarrow>
             (case handle_slashes r rt method w req of
                Inl result \<Rightarrow> result
              | Inr (w', req') \<Rightarrow> invoke rt matches i w' req'))"

definition StatusText_MethodNotAllowed :: string where
  "StatusText_MethodNotAllowed = ''Method Not Allowed''"

text \<open>What \<^verbatim>\<open>ServeHTTP\<close> does when no route of the request's method matches.\<close>

definition fallback :: "Router \<Rightarrow> Router \<Rightarrow> string \<Rightarrow> string \<Rightarrow> response \<Rightarrow> request \<Rightarrow> outcome" where
  "fallback r router method path w req =
     (let methods = retrieveMethods router path
      in if method = MethodOptions then
           (case OptionsHandler r of
              Some h \<Rightarrow> h w req methods
            | None \<Rightarrow> Return (Header_Set ''Allow'' (Join methods '', '') w))
         else if length methods > 0 then
           (case MethodNotAllowedHandler r of
              Some h \<Rightarrow> h w req methods
            | None \<Rightarrow>
                Return (http_Error (Header_Set ''Allow'' (Join methods '', '') w)
                          StatusText_MethodNotAllowed StatusMethodNotAllowed))
         else
           (case NotFoundHandler r of
              Some h \<Rightarrow> h w req
            | None \<Rightarrow> Return (NotFound w req)))"

text \<open>The body of \<^verbatim>\<open>ServeHTTP\<close>; its result carries the request as the body left it.\<close>

definition serve :: "Router \<Rightarrow> response \<Rightarrow> request \<Rightarrow> request \<times> outcome" where
  "serve r w req =
     (let method = Method req;
          (router, path) = fetchGroup r (URL_Path req)
      in case (case map_of (combinedRegexps router) method of
                 None \<Rightarrow> None
               | Some re \<Rightarrow> FindStringSubmatch re path) of
           Some matches \<Rightarrow> dispatch r router method matches w req
         | None \<Rightarrow> (req, fallback r router method path w req))"

text \<open>
  \<^verbatim>\<open>ServeHTTP\<close>: when a panic handler is set, a panic of the body is recovered and
  handed to it, with the request as the body left it.
\<close>

definition recovered :: "Router \<Rightarrow> request \<times> outcome \<Rightarrow> outcome" where
  "recovered r res =
     (case PanicHandler r of
        None \<Rightarrow> snd res
      | Some ph \<Rightarrow> (case snd res of Return w' \<Rightarrow> Return w' | Panic rcv w' \<Rightarrow> ph w' (fst res) rcv))"

definition ServeHTTP :: "Router \<Rightarrow> response \<Rightarrow> request \<Rightarrow> outcome" where
  "ServeHTTP r w req = recovered r (serve r w req)"

definition Params :: "request \<Rightarrow> (string \<rightharpoonup> string) option" where
  "Params req = ctx_params req"

text \<open>\<^verbatim>\<open>httptest.NewRequest\<close> with a method and a path.\<close>

definition NewRequest :: "string \<Rightarrow> string \<Rightarrow> request" where
  "NewRequest method path = \<lparr>Method = method, URL_Path = path, ctx_params = None\<rparr>"

text \<open>A backslash, which a string literal of the logic cannot hold.\<close>

definition bs :: string where
  "bs = [CHR 0x5C]"

text \<open>A router set up by a sequence of calls and then prepared.\<close>

definition prepared :: "(Router \<Rightarrow> panic + Router) list \<Rightarrow> Router option" where
  "prepared calls = (case build calls New of Inl p \<Rightarrow> None | Inr r \<Rightarrow> Prepare r)"

text \<open>The assignment \<^verbatim>\<open>r.Middleware = append(r.Middleware, m)\<close> as a call.\<close>

definition Use :: "Middleware \<Rightarrow> Router \<Rightarrow> panic + Router" where
  "Use m r = Inr (set_Middleware (Middleware r @ [m]) r)"

definition SetPolicy :: "8 word \<Rightarrow> Router \<Rightarrow> panic + Router" where
  "SetPolicy p r = Inr (set_TrailingSlashesPolicy p r)"

section \<open>Evaluation\<close>

lemmas regex_eval =
  MustCompile_def init_def step_def normal_def in_cls_def atom_def push_cap_def push_def
  close_def bar_def repeat_def finish_def collapse_def is_ascii_def is_alnum_def escape_def
  digit_ranges_def word_ranges_def space_ranges_def FindStringSubmatch_def MatchString_def
  submatches_def in_class_def in_range_def ends_of.simps(9, 10) all_matches.simps
  FindAllStringSubmatch_def ReplaceAllStringFunc_def

lemmas parse_eval = Parse_def NewParser_def index_def convert_def

lemmas router_eval =
  New_def NewWithParser_def Handle_def Get_def Post_def Put_def Delete_def routes_of_def
  Group_def Use_def SetPolicy_def prepared_def Prepare_def prepare_method_def combine_def
  prepare_route_def fetchGroup_def walk.simps seg_end.simps retrieveMethods_def
  first_nonempty.simps handle_slashes_def invoke_def dispatch_def fallback_def serve_def
  recovered_def ServeHTTP_def NewRequest_def bs_def MethodGet_def MethodPost_def MethodPut_def
  MethodDelete_def MethodOptions_def IgnoreTrailingSlashes_def AppendTrailingSlashes_def
  RemoveTrailingSlashes_def StrictTrailingSlashes_def StatusMovedPermanently_def
  StatusPermanentRedirect_def StatusMethodNotAllowed_def StatusText_MethodNotAllowed_def
  Redirect_def http_Error_def NotFound_def WriteHeader_def Write_def Header_Set_def
  NewRecorder_def Let_def

lemma defaultParserRegexp_eq:
  "defaultParserRegexp =
     Seq (Chr CHR ''<'')
       (Seq (Grp 1 (Plus (Cls True [(CHR ''/'', CHR ''/''), (CHR '':'', CHR '':'')])))
         (Seq (Opt (Grp 2 (Seq (Chr CHR '':'') (Grp 3 (Plus (Cls True [(CHR ''/'', CHR ''/'')]))))))
           (Chr CHR ''>'')))"
  by (simp add: defaultParserRegexp_def regex_eval)

section \<open>Resolution in the combined matcher\<close>

definition users_calls :: "Handler \<Rightarrow> Handler \<Rightarrow> Handler \<Rightarrow> (Router \<Rightarrow> panic + Router) list" where
  "users_calls h1 h2 h3 =
     [Get ''/users'' h1 [],
      Get (''/users/<id:'' @ bs @ ''d+>'') h2 [],
      Get (''/users/<id:'' @ bs @ ''d+>/posts/<title>'') h3 []]"

text \<open>
  Claim C1. With the GET routes \<^verbatim>\<open>/users\<close>, \<^verbatim>\<open>/users/<id:\d+>\<close> and
  \<^verbatim>\<open>/users/<id:\d+>/posts/<title>\<close> registered in this order on a new router and the
  router prepared, the request \<^verbatim>\<open>GET /users/22/posts/hello\<close> runs the third handler with
  the parameters id = 22 and title = hello, \<^verbatim>\<open>GET /users/11\<close> runs the second handler
  with id = 11, and \<^verbatim>\<open>GET /users\<close> runs the first handler with no parameters bound.
  For the first request the capture groups are empty up to index 4, the slot of the
  third route, and the two groups after it hold the parameters.
\<close>

theorem users_resolution:
  "(case prepared (users_calls h1 h2 h3) of
      None \<Rightarrow> False
    | Some r \<Rightarrow>
        ServeHTTP r w (NewRequest MethodGet ''/users/22/posts/hello'') =
          h3 w ((NewRequest MethodGet ''/users/22/posts/hello'')
                  \<lparr>ctx_params := Some [''id'' \<mapsto> ''22'', ''title'' \<mapsto> ''hello'']\<rparr>) \<and>
        ServeHTTP r w (NewRequest MethodGet ''/users/11'') =
          h2 w ((NewRequest MethodGet ''/users/11'')\<lparr>ctx_params := Some [''id'' \<mapsto> ''11'']\<rparr>) \<and>
        ServeHTTP r w (NewRequest MethodGet ''/users'') = h1 w (NewRequest MethodGet ''/users'') \<and>
        map_option (\<lambda>re. FindStringSubmatch re ''/users/22/posts/hello'')
            (map_of (combinedRegexps r) MethodGet) =
          Some (Some [''/users/22/posts/hello'', [], [], [], ''/users/22/posts/hello'',
                      ''22'', ''hello'']) \<and>
        map (map_option reg) (routes_of r MethodGet) =
          [None, Some ''/users/?'', Some (''/users/('' @ bs @ ''d+)/?''), None,
           Some (''/users/('' @ bs @ ''d+)/posts/([^/]+)/?''), None, None])"
  by (simp add: users_calls_def defaultParserRegexp_eq regex_eval parse_eval router_eval)

section \<open>The strict trailing-slash policy\<close>

text \<open>The handlers of the repository's tests.\<close>

definition emptyHandler :: Handler where
  "emptyHandler w req = Return w"

definition helloHandler :: "string \<Rightarrow> Handler" where
  "helloHandler msg w req = Return (Write msg w)"

text \<open>
  Claim C3 (the code departs from it). The route \<^verbatim>\<open>GET /users\<close> is registered without
  a trailing slash and the policy is strict. On \<^verbatim>\<open>GET /users/\<close> the dispatcher writes
  the redirect to \<^verbatim>\<open>/users\<close> and then, the branch having no \<^verbatim>\<open>return\<close>, goes on to run
  the route's handler on the writer that already holds the redirect, with the request's
  path stripped. With the handler that writes \<^verbatim>\<open>hit\<close>, the response is the 301 with
  that body.
\<close>

theorem strict_strip_runs_handler:
  "(case prepared [Get ''/users'' h [], SetPolicy StrictTrailingSlashes] of
      None \<Rightarrow> False
    | Some r \<Rightarrow>
        ServeHTTP r w (NewRequest MethodGet ''/users/'') =
          h (Redirect w (NewRequest MethodGet ''/users'') ''/users'' StatusMovedPermanently)
            (NewRequest MethodGet ''/users'')) \<and>
   (case prepared [Get ''/users'' (helloHandler ''hit'') [], SetPolicy StrictTrailingSlashes] of
      None \<Rightarrow> False
    | Some r \<Rightarrow>
        ServeHTTP r NewRecorder (NewRequest MethodGet ''/users/'') =
          Return \<lparr>Code = 301, wroteHeader = True, Header = [''Location'' \<mapsto> ''/users''],
                  Body = ''hit''\<rparr>)"
  by (simp add: helloHandler_def defaultParserRegexp_eq regex_eval parse_eval router_eval)

section \<open>Groups\<close>

definition versions_calls :: "Handler \<Rightarrow> Handler \<Rightarrow> Handler \<Rightarrow> Handler \<Rightarrow> (Router \<Rightarrow> panic + Router) list" where
  "versions_calls h0 h1 h2 h3 =
     [Get ''/'' h0 [],
      Group ''v1'', in_group [''v1''] (Get ''/'' h1 []),
      Group ''v2'', in_group [''v2''] (Get ''/'' h2 []), in_group [''v2''] (Get ''/users'' h3 [])]"

text \<open>
  Claim C6. With the root route \<^verbatim>\<open>/\<close>, the group \<^verbatim>\<open>v1\<close> with the route \<^verbatim>\<open>/\<close> and the
  group \<^verbatim>\<open>v2\<close> with the routes \<^verbatim>\<open>/\<close> and \<^verbatim>\<open>/users\<close>, the path \<^verbatim>\<open>/v2/users\<close> resolves to
  the router of \<^verbatim>\<open>v2\<close> with the remaining path \<^verbatim>\<open>/users\<close>, and the request runs the
  handler of \<^verbatim>\<open>/users\<close> in \<^verbatim>\<open>v2\<close>. The root's own tables are not consulted: whatever
  routes \<open>rs\<close> and combined expressions \<open>cr\<close> the root holds, the result is the same.
\<close>

theorem group_resolution:
  "(case prepared (versions_calls h0 h1 h2 h3) of
      None \<Rightarrow> False
    | Some r \<Rightarrow>
        (case map_of (groups r) ''v2'' of
           None \<Rightarrow> False
         | Some v2 \<Rightarrow> fetchGroup r ''/v2/users'' = (v2, ''/users'')) \<and>
        ServeHTTP r w (NewRequest MethodGet ''/v2/users'') =
          h3 w (NewRequest MethodGet ''/v2/users'') \<and>
        ServeHTTP (set_routes rs (set_combinedRegexps cr r)) w (NewRequest MethodGet ''/v2/users'') =
          h3 w (NewRequest MethodGet ''/v2/users''))"
  by (simp add: versions_calls_def defaultParserRegexp_eq regex_eval parse_eval router_eval)

section \<open>Middleware\<close>

text \<open>
  An instance for arbitrary layers. The root has the middleware \<open>m1\<close>, its group
  \<^verbatim>\<open>v1\<close> the middleware \<open>m2\<close>, and the group's route \<^verbatim>\<open>GET /\<close> the middleware \<open>m3\<close>
  around the handler \<open>h\<close>. After preparation the route's final handler is
  \<open>m1 (m2 (m3 h))\<close>, and a matching request runs exactly this stored handler: the
  middleware lists a router holds at the time of the request play no part. The general
  statement comes with the lemmas on preparation below.
\<close>

lemma middleware_layers_example:
  "(case prepared [Use m1, Group ''v1'', in_group [''v1''] (Use m2),
                   in_group [''v1''] (Get ''/'' h [m3])] of
      None \<Rightarrow> False
    | Some r \<Rightarrow>
        (case map_of (groups r) ''v1'' of
           None \<Rightarrow> False
         | Some v1 \<Rightarrow>
             map (map_option finalHandler) (routes_of v1 MethodGet) =
               [None, Some (Some (m1 (m2 (m3 h))))]) \<and>
        ServeHTTP r w (NewRequest MethodGet ''/v1'') =
          m1 (m2 (m3 h)) w (NewRequest MethodGet ''/v1'') \<and>
        ServeHTTP (set_Middleware mws r) w (NewRequest MethodGet ''/v1'') =
          m1 (m2 (m3 h)) w (NewRequest MethodGet ''/v1''))"
  by (simp add: defaultParserRegexp_eq regex_eval parse_eval router_eval)

section \<open>Requests that match no route of their method\<close>







section \<open>Preparing twice\<close>

lemma prepare_route_idem: "prepare_route mw (prepare_route mw rt) = prepare_route mw rt"
  by (simp add: prepare_route_def)

lemma regs_of_prepare_route: "regs_of (map (map_option (prepare_route mw)) rts) = regs_of rts"
  by (induction rts rule: regs_of.induct) (simp_all add: prepare_route_def)

lemma combine_prepare_route: "combine (map (map_option (prepare_route mw)) rts) = combine rts"
  by (simp add: combine_def regs_of_prepare_route)

text \<open>
  A method is done in a pair of tables when preparing it changes nothing: its routes
  have their final handlers and its combined expression is in place.
\<close>

definition method_done :: "(string \<Rightarrow> regex option) \<Rightarrow> Middleware list \<Rightarrow> string \<Rightarrow> tables \<Rightarrow> bool" where
  "method_done compile mw m t =
     (\<exists>rts re. map_of (fst t) m = Some rts \<and> map (map_option (prepare_route mw)) rts = rts \<and>
        compile (combine rts) = Some re \<and> map_of (snd t) m = Some re)"

lemma map_option_prepare_route_idem:
  "map_option (prepare_route mw) (map_option (prepare_route mw) x) = map_option (prepare_route mw) x"
  by (cases x) (simp_all add: prepare_route_idem)

lemma map_prepare_route_idem:
  "map (map_option (prepare_route mw)) (map (map_option (prepare_route mw)) rts) =
     map (map_option (prepare_route mw)) rts"
  by (simp add: map_option_prepare_route_idem)

lemma prepare_method_done:
  assumes "prepare_method compile mw m t = Some t'"
  shows "method_done compile mw m t'"
proof -
  define rts where "rts = (case map_of (fst t) m of None \<Rightarrow> [] | Some l \<Rightarrow> l)"
  from assms obtain re where re: "compile (combine rts) = Some re"
    and t': "t' = (AList.update m (map (map_option (prepare_route mw)) rts) (fst t),
                   AList.update m re (snd t))"
    by (auto simp: prepare_method_def Let_def rts_def split: option.splits)
  show ?thesis
    unfolding method_done_def t'
    by (rule exI[of _ "map (map_option (prepare_route mw)) rts"], rule exI[of _ re])
       (simp add: update_conv' map_option_prepare_route_idem combine_prepare_route re)
qed

lemma prepare_method_keeps_done:
  assumes "method_done compile mw m t" and "prepare_method compile mw n t = Some t'"
  shows "method_done compile mw m t'"
proof (cases "m = n")
  case True
  with assms(2) show ?thesis by (simp add: prepare_method_done)
next
  case False
  from assms(2) obtain v re where "t' = (AList.update n v (fst t), AList.update n re (snd t))"
    by (auto simp: prepare_method_def Let_def split: option.splits)
  with assms(1) False show ?thesis
    by (simp add: method_done_def update_conv')
qed

lemma done_prepare_method:
  assumes "method_done compile mw m t"
  shows "prepare_method compile mw m t = Some t"
proof -
  from assms obtain rts re where a: "map_of (fst t) m = Some rts"
    "map (map_option (prepare_route mw)) rts = rts" "compile (combine rts) = Some re"
    "map_of (snd t) m = Some re"
    by (auto simp: method_done_def)
  then show ?thesis
    by (simp add: prepare_method_def update_triv)
qed

lemma prepare_methods_done:
  "prepare_methods compile mw ms t = Some t' \<Longrightarrow> (\<forall>m\<in>S. method_done compile mw m t) \<Longrightarrow>
     (\<forall>m\<in>S \<union> set ms. method_done compile mw m t')"
proof (induction ms arbitrary: t S)
  case Nil
  then show ?case by simp
next
  case (Cons n ms)
  from Cons.prems(1) obtain t1 where s: "prepare_method compile mw n t = Some t1"
    and r: "prepare_methods compile mw ms t1 = Some t'"
    by (auto split: option.splits)
  have "\<forall>m\<in>insert n S. method_done compile mw m t1"
    using Cons.prems(2) s prepare_method_done prepare_method_keeps_done by blast
  from Cons.IH[OF r this] show ?case by simp
qed

lemma done_prepare_methods:
  "(\<forall>m\<in>set ms. method_done compile mw m t) \<Longrightarrow> prepare_methods compile mw ms t = Some t"
  by (induction ms) (simp_all add: done_prepare_method)

lemma prepare_method_keys:
  assumes "prepare_method compile mw m t = Some t'" and "m \<in> set (map fst (fst t))"
  shows "map fst (fst t') = map fst (fst t)"
proof -
  from assms(1) obtain v re where "t' = (AList.update m v (fst t), AList.update m re (snd t))"
    by (auto simp: prepare_method_def Let_def split: option.splits)
  with assms(2) show ?thesis
    by (simp add: update_keys)
qed

lemma prepare_methods_keys:
  "prepare_methods compile mw ms t = Some t' \<Longrightarrow> set ms \<subseteq> set (map fst (fst t)) \<Longrightarrow>
     map fst (fst t') = map fst (fst t)"
proof (induction ms arbitrary: t)
  case Nil
  then show ?case by simp
next
  case (Cons n ms)
  from Cons.prems(1) obtain t1 where s: "prepare_method compile mw n t = Some t1"
    and r: "prepare_methods compile mw ms t1 = Some t'"
    by (auto split: option.splits)
  from prepare_method_keys[OF s] Cons.prems(2) have k: "map fst (fst t1) = map fst (fst t)"
    by simp
  with Cons.IH[OF r] Cons.prems(2) show ?case by simp
qed

lemma prepare_methods_idem:
  assumes "prepare_methods compile mw (map fst rs) (rs, cr) = Some (rs', cr')"
  shows "prepare_methods compile mw (map fst rs') (rs', cr') = Some (rs', cr')"
proof -
  from prepare_methods_keys[OF assms] have k: "map fst rs' = map fst rs"
    by simp
  from prepare_methods_done[OF assms, of "{}"] have "\<forall>m\<in>set (map fst rs). method_done compile mw m (rs', cr')"
    by simp
  with k show ?thesis
    by (simp add: done_prepare_methods)
qed

lemma Router_middleware_cong:
  "Middleware r' = Middleware r \<Longrightarrow> map Middleware ps' = map Middleware ps \<Longrightarrow>
     Router_middleware r' ps' = Router_middleware r ps"
proof (induction r ps arbitrary: r' ps' rule: Router_middleware.induct)
  case (1 r)
  then show ?case by simp
next
  case (2 r p ps)
  from "2.prems"(2) obtain p' ps'' where e: "ps' = p' # ps''" "Middleware p' = Middleware p"
    "map Middleware ps'' = map Middleware ps"
    by (cases ps') auto
  with "2.IH"[of p' ps''] "2.prems"(1) show ?case by simp
qed

lemma prepare_idem_aux:
  "(\<forall>r' ps'. prepare compile ps r = Some r' \<longrightarrow> map Middleware ps' = map Middleware ps \<longrightarrow>
       prepare compile ps' r' = Some r') \<and> True"
  and "(\<forall>gs' ps'. prepare_groups compile ps gs = Some gs' \<longrightarrow> map Middleware ps' = map Middleware ps \<longrightarrow>
       prepare_groups compile ps' gs' = Some gs')"
proof (induction compile ps r and compile ps gs rule: prepare_prepare_groups.induct)
  case (1 compile parents mw cr gs rs pr ph oh mh nh ts)
  let ?r = "Router mw cr gs rs pr ph oh mh nh ts"
  show ?case
  proof (intro conjI allI impI TrueI)
    fix r' ps'
    assume p: "prepare compile parents ?r = Some r'" and c: "map Middleware ps' = map Middleware parents"
    from p obtain rs' cr' gs' where
      m: "prepare_methods compile (Router_middleware ?r parents) (map fst rs) (rs, cr) = Some (rs', cr')"
      and g: "prepare_groups compile (?r # parents) gs = Some gs'"
      and r': "r' = Router mw cr' gs' rs' pr ph oh mh nh ts"
      by (auto split: option.splits)
    have rm: "Router_middleware r' ps' = Router_middleware ?r parents"
      using c by (intro Router_middleware_cong) (simp_all add: r')
    from "1.IH"[OF m refl] g c have "prepare_groups compile (r' # ps') gs' = Some gs'"
      by (simp add: r')
    with prepare_methods_idem[OF m] rm show "prepare compile ps' r' = Some r'"
      by (simp add: r')
  qed
next
  case (2 compile parents)
  then show ?case by simp
next
  case (3 compile parents p g gs)
  show ?case
  proof (intro allI impI)
    fix gs' ps'
    assume a: "prepare_groups compile parents ((p, g) # gs) = Some gs'"
      and c: "map Middleware ps' = map Middleware parents"
    from a obtain g' gs1 where g': "prepare compile parents g = Some g'"
      and gs1: "prepare_groups compile parents gs = Some gs1" and e: "gs' = (p, g') # gs1"
      by (auto split: option.splits)
    from "3.IH"(1) g' c have "prepare compile ps' g' = Some g'" by blast
    moreover from "3.IH"(2)[OF g'] gs1 c have "prepare_groups compile ps' gs1 = Some gs1" by blast
    ultimately show "prepare_groups compile ps' gs' = Some gs'"
      by (simp add: e)
  qed
qed

section \<open>What preparation stores\<close>

text \<open>What preparation leaves in the tables of a method.\<close>

lemma prepare_method_routes:
  assumes "prepare_method compile mw n t = Some t'" "map_of (fst t) m = Some rts"
  shows "map_of (fst t') m = Some (if m = n then map (map_option (prepare_route mw)) rts else rts)"
  using assms by (auto simp: prepare_method_def Let_def update_conv' split: option.splits)

lemma prepare_methods_routes:
  "prepare_methods compile mw ms t = Some t' \<Longrightarrow> map_of (fst t) m = Some rts \<Longrightarrow>
     map_of (fst t') m = Some (if m \<in> set ms then map (map_option (prepare_route mw)) rts else rts)"
proof (induction ms arbitrary: t rts)
  case Nil
  then show ?case by simp
next
  case (Cons n ms)
  from Cons.prems(1) obtain t1 where s: "prepare_method compile mw n t = Some t1"
    and r: "prepare_methods compile mw ms t1 = Some t'"
    by (auto split: option.splits)
  from Cons.IH[OF r prepare_method_routes[OF s Cons.prems(2)]] show ?case
    by (simp add: map_option_prepare_route_idem)
qed

lemma prepare_table:
  assumes "prepare compile parents r0 = Some r" "map_of (routes r0) m = Some rts"
  shows "routes_of r m = map (map_option (prepare_route (Router_middleware r0 parents))) rts \<and>
         (\<exists>re. map_of (combinedRegexps r) m = Some re \<and> compile (combine rts) = Some re)"
proof -
  let ?mw = "Router_middleware r0 parents"
  from assms(1) obtain rs' cr' where
    p: "prepare_methods compile ?mw (map fst (routes r0)) (routes r0, combinedRegexps r0) = Some (rs', cr')"
    and r: "routes r = rs'" "combinedRegexps r = cr'"
    by (cases r0) (auto split: option.splits)
  from assms(2) have k: "m \<in> set (map fst (routes r0))"
    by (auto dest: map_of_SomeD intro: rev_image_eqI)
  from prepare_methods_routes[OF p, of m rts] assms(2) k
  have t: "map_of rs' m = Some (map (map_option (prepare_route ?mw)) rts)"
    by simp
  from prepare_methods_done[OF p, of "{}"] k have "method_done compile ?mw m (rs', cr')"
    by auto
  with t obtain re where "compile (combine (map (map_option (prepare_route ?mw)) rts)) = Some re"
    "map_of cr' m = Some re"
    by (auto simp: method_done_def)
  with t r show ?thesis
    by (simp add: routes_of_def combine_prepare_route)
qed

text \<open>
  The routers on the way from a router to the group that a list of prefixes names, the
  first router first: in the source, the group and the chain of its \<^verbatim>\<open>parent\<close> pointers,
  read from the far end.
\<close>

fun lineage :: "string list \<Rightarrow> Router \<Rightarrow> Router list option" where
  "lineage [] r = Some [r]"
| "lineage (p # ps) r =
     (case map_of (groups r) p of None \<Rightarrow> None | Some g \<Rightarrow> map_option ((#) r) (lineage ps g))"

lemma lineage_nonempty: "lineage ps r = Some ls \<Longrightarrow> ls \<noteq> []"
  by (cases ps) (auto split: option.splits)

lemma chain_append: "chain (xs @ ys) h = chain xs (chain ys h)"
  by (induction xs) simp_all

lemma Router_middleware_concat:
  "Router_middleware r ps = concat (map Middleware (rev ps)) @ Middleware r"
  by (induction r ps rule: Router_middleware.induct) simp_all

lemma prepare_groups_lookup:
  "prepare_groups compile ps gs = Some gs' \<Longrightarrow> map_of gs p = Some g \<Longrightarrow>
     \<exists>g'. map_of gs' p = Some g' \<and> prepare compile ps g = Some g'"
proof (induction gs arbitrary: gs')
  case Nil
  then show ?case by simp
next
  case (Cons x gs)
  obtain q h where x: "x = (q, h)"
    by (cases x)
  from Cons.prems(1) obtain h' gs1 where h': "prepare compile ps h = Some h'"
    and gs1: "prepare_groups compile ps gs = Some gs1" and e: "gs' = (q, h') # gs1"
    by (auto simp: x split: option.splits)
  show ?case
  proof (cases "q = p")
    case True
    with Cons.prems(2) h' show ?thesis
      by (simp add: x e)
  next
    case False
    with Cons.prems(2) have "map_of gs p = Some g"
      by (simp add: x)
    from Cons.IH[OF gs1 this] False show ?thesis
      by (simp add: e)
  qed
qed

lemma prepare_group:
  assumes "prepare compile parents r0 = Some r" "map_of (groups r0) p = Some g"
  shows "\<exists>g'. map_of (groups r) p = Some g' \<and> prepare compile (r0 # parents) g = Some g'"
proof -
  from assms(1) obtain gs' where "prepare_groups compile (r0 # parents) (groups r0) = Some gs'"
    and "groups r = gs'"
    by (cases r0) (auto split: option.splits)
  with prepare_groups_lookup[OF this(1) assms(2)] show ?thesis
    by simp
qed

lemma prepare_lineage:
  "prepare compile parents r0 = Some r \<Longrightarrow> lineage ps r0 = Some ls \<Longrightarrow>
     \<exists>ls'. lineage ps r = Some ls' \<and>
       prepare compile (rev (butlast ls) @ parents) (last ls) = Some (last ls')"
proof (induction ps arbitrary: r0 r parents ls)
  case Nil
  then show ?case by auto
next
  case (Cons p ps)
  from Cons.prems(2) obtain g ls1 where g: "map_of (groups r0) p = Some g"
    and l: "lineage ps g = Some ls1" and e: "ls = r0 # ls1"
    by (auto split: option.splits)
  from prepare_group[OF Cons.prems(1) g] obtain g' where g': "map_of (groups r) p = Some g'"
    and p: "prepare compile (r0 # parents) g = Some g'"
    by blast
  from Cons.IH[OF p l] obtain ls1' where l': "lineage ps g' = Some ls1'"
    and q: "prepare compile (rev (butlast ls1) @ r0 # parents) (last ls1) = Some (last ls1')"
    by blast
  from lineage_nonempty[OF l] lineage_nonempty[OF l'] have "ls1 \<noteq> []" "ls1' \<noteq> []"
    by simp_all
  with q g' l' show ?case
    by (simp add: e)
qed

lemma lineage_middleware:
  "ls \<noteq> [] \<Longrightarrow> Router_middleware (last ls) (rev (butlast ls) @ []) = concat (map Middleware ls)"
proof -
  assume "ls \<noteq> []"
  then have "butlast ls @ [last ls] = ls"
    by simp
  then have "concat (map Middleware ls) = concat (map Middleware (butlast ls @ [last ls]))"
    by simp
  then show ?thesis
    by (simp add: Router_middleware_concat)
qed


text \<open>
  The slot of a route after preparation: the route with its final handler, the chain of
  the middleware of every router of the lineage, the root's first, around the chain of
  the route's own middleware around the handler.
\<close>

lemma prepared_slot:
  assumes "prepare compile [] r0 = Some r" "lineage ps r0 = Some ls"
    and "map_of (routes (last ls)) method = Some rts" "k < length rts" "rts ! k = Some rt"
  shows "\<exists>ls'. lineage ps r = Some ls' \<and> length (routes_of (last ls') method) = length rts \<and>
           routes_of (last ls') method ! k = Some (prepare_route (concat (map Middleware ls)) rt)"
proof -
  from prepare_lineage[OF assms(1,2)] obtain ls' where l: "lineage ps r = Some ls'"
    and p: "prepare compile (rev (butlast ls) @ []) (last ls) = Some (last ls')"
    by blast
  from lineage_nonempty[OF assms(2)] have mw: "Router_middleware (last ls) (rev (butlast ls) @ []) =
      concat (map Middleware ls)"
    by (rule lineage_middleware)
  from prepare_table[OF p assms(3)] have "routes_of (last ls') method =
      map (map_option (prepare_route (concat (map Middleware ls)))) rts"
    by (simp only: mw)
  with assms(4,5) l show ?thesis
    by simp
qed

text \<open>
  Claim C7. Let a route \<open>rt\<close> stand in slot \<open>k\<close> of a method of a router of the tree,
  \<open>ls\<close> being the routers from the root to that router, and let preparation complete.
  Then the slot holds the route with the final handler
  \<open>chain (Middleware root @ \<dots> @ Middleware group) (chain (middleware rt) (handler rt))\<close>,
  where \<open>chain [m1, \<dots>, mn] h = m1 (\<dots> (mn h))\<close>: the root's middleware is outermost and
  runs first, then that of each group on the way down, then the route's own, then the
  handler. A request of the method whose path leads to the router and whose match stops
  the scan at the slot runs exactly this stored handler, on the writer and the request as
  the trailing-slash block left them and with the parameters bound; nothing of the chain
  is built at that time, whatever the router the request came to holds.
\<close>

theorem middleware_chain_order:
  assumes "prepare compile [] r0 = Some r" and "lineage ps r0 = Some ls"
    and "map_of (routes (last ls)) method = Some rts" and "k < length rts" and "rts ! k = Some rt"
  shows "\<exists>ls' rt'.
           lineage ps r = Some ls' \<and> routes_of (last ls') method ! k = Some rt' \<and>
           finalHandler rt' =
             Some (chain (concat (map Middleware ls)) (chain (middleware rt) (handler rt))) \<and>
           (\<forall>root w req path re matches w' req'.
              Method req = method \<longrightarrow>
              fetchGroup root (URL_Path req) = (last ls', path) \<longrightarrow>
              map_of (combinedRegexps (last ls')) method = Some re \<longrightarrow>
              FindStringSubmatch re path = Some matches \<longrightarrow>
              first_nonempty matches 1 = k \<longrightarrow>
              handle_slashes root (Some rt') method w req = Inr (w', req') \<longrightarrow>
              serve root w req =
                (case (if params rt = [] then Inr req'
                       else (case bind_params (params rt) matches k Map.empty of
                               Inl p \<Rightarrow> Inl p
                             | Inr bound \<Rightarrow> Inr (req'\<lparr>ctx_params := Some bound\<rparr>))) of
                   Inl p \<Rightarrow> (req', Panic p w')
                 | Inr req'' \<Rightarrow>
                     (req'', chain (concat (map Middleware ls))
                               (chain (middleware rt) (handler rt)) w' req'')))"
proof -
  let ?rt = "prepare_route (concat (map Middleware ls)) rt"
  from prepared_slot[OF assms] obtain ls' where l: "lineage ps r = Some ls'"
    and n: "length (routes_of (last ls') method) = length rts"
    and s: "routes_of (last ls') method ! k = Some ?rt"
    by blast
  have i: "index (routes_of (last ls') method) (int k) = Inr (Some ?rt)"
    using assms(4) n s by (simp add: index_def)
  have f: "finalHandler ?rt =
      Some (chain (concat (map Middleware ls)) (chain (middleware rt) (handler rt)))"
    and p: "params ?rt = params rt"
    by (simp_all add: prepare_route_def)
  have "serve root w req =
      (case (if params rt = [] then Inr req'
             else (case bind_params (params rt) matches k Map.empty of
                     Inl p \<Rightarrow> Inl p
                   | Inr bound \<Rightarrow> Inr (req'\<lparr>ctx_params := Some bound\<rparr>))) of
         Inl p \<Rightarrow> (req', Panic p w')
       | Inr req'' \<Rightarrow>
           (req'', chain (concat (map Middleware ls)) (chain (middleware rt) (handler rt)) w' req''))"
    if "Method req = method" "fetchGroup root (URL_Path req) = (last ls', path)"
      "map_of (combinedRegexps (last ls')) method = Some re"
      "FindStringSubmatch re path = Some matches"
      "first_nonempty matches 1 = k" "handle_slashes root (Some ?rt) method w req = Inr (w', req')"
    for root w req path re matches w' req'
    using that i by (simp add: serve_def dispatch_def invoke_def f p Let_def split: sum.splits)
  with l s f show ?thesis
    by blast
qed

text \<open>The body that an outcome left in the writer.\<close>

definition body_of :: "outcome \<Rightarrow> string" where
  "body_of out = (case out of Return w \<Rightarrow> Body w | Panic p w \<Rightarrow> Body w)"

text \<open>A middleware that writes its name and calls the next handler.\<close>

definition mark :: "string \<Rightarrow> Middleware" where
  "mark s next w req = next (Write s w) req"

text \<open>
  An instance: a group in a group, two middleware on the inner group, a route with a
  parameter. The body reads \<^verbatim>\<open>M1M2M3M4M5H\<close>.
\<close>

definition nested_calls :: "(Router \<Rightarrow> panic + Router) list" where
  "nested_calls =
     [Use (mark ''M1''), Group ''v1'', in_group [''v1''] (Use (mark ''M2'')),
      in_group [''v1''] (Group ''admin''), in_group [''v1'', ''admin''] (Use (mark ''M3'')),
      in_group [''v1'', ''admin''] (Use (mark ''M4'')),
      in_group [''v1'', ''admin''] (Get ''/users/<id>'' (helloHandler ''H'') [mark ''M5''])]"

theorem middleware_chain_order_witness:
  "(case build nested_calls New of
      Inl p \<Rightarrow> False
    | Inr r0 \<Rightarrow>
        (case prepare MustCompile [] r0 of
           None \<Rightarrow> False
         | Some r \<Rightarrow>
             (case lineage [''v1'', ''admin''] r of
                None \<Rightarrow> False
              | Some ls' \<Rightarrow>
                  (case routes_of (last ls') MethodGet ! 1 of
                     None \<Rightarrow> False
                   | Some rt' \<Rightarrow>
                       map_option
                         (\<lambda>h. body_of (h NewRecorder (NewRequest MethodGet ''/v1/admin/users/7'')))
                         (finalHandler rt') = Some ''M1M2M3M4M5H'')) \<and>
             body_of (ServeHTTP r NewRecorder (NewRequest MethodGet ''/v1/admin/users/7'')) =
               ''M1M2M3M4M5H''))"
proof -
  let ?rt = "\<lparr>reg = ''/users/([^/]+)/?'', params = [''id''], hasTrailingSlashes = False,
      middleware = [mark ''M5''], handler = helloHandler ''H'', finalHandler = None\<rparr>"
  let ?req = "NewRequest MethodGet ''/v1/admin/users/7''"
  have "case build nested_calls New of
      Inl p \<Rightarrow> False
    | Inr r0 \<Rightarrow>
        (case lineage [''v1'', ''admin''] r0 of
           None \<Rightarrow> False
         | Some ls \<Rightarrow>
             map_of (routes (last ls)) MethodGet = Some [None, Some ?rt, None] \<and>
             map Middleware ls = [mark ''M1''] # [mark ''M2''] # [mark ''M3'', mark ''M4''] # []) \<and>
        (case prepare MustCompile [] r0 of
           None \<Rightarrow> False
         | Some r \<Rightarrow> body_of (ServeHTTP r NewRecorder ?req) = ''M1M2M3M4M5H'')"
    by (simp add: nested_calls_def body_of_def mark_def helloHandler_def defaultParserRegexp_eq
        regex_eval parse_eval router_eval)
  then obtain r0 ls r where b: "build nested_calls New = Inr r0"
    and l: "lineage [''v1'', ''admin''] r0 = Some ls"
    and t: "map_of (routes (last ls)) MethodGet = Some [None, Some ?rt, None]"
    and m: "map Middleware ls = [mark ''M1''] # [mark ''M2''] # [mark ''M3'', mark ''M4''] # []"
    and p: "prepare MustCompile [] r0 = Some r"
    and s: "body_of (ServeHTTP r NewRecorder ?req) = ''M1M2M3M4M5H''"
    by (auto split: sum.splits option.splits)
  from middleware_chain_order[OF p l t, of 1 ?rt] obtain ls' rt' where
    l': "lineage [''v1'', ''admin''] r = Some ls'"
    and k: "routes_of (last ls') MethodGet ! 1 = Some rt'"
    and f: "finalHandler rt' =
      Some (chain (concat (map Middleware ls)) (chain (middleware ?rt) (handler ?rt)))"
    by auto
  have "body_of (chain (concat (map Middleware ls)) (chain (middleware ?rt) (handler ?rt))
      NewRecorder ?req) = ''M1M2M3M4M5H''"
    by (simp add: m body_of_def mark_def helloHandler_def Write_def WriteHeader_def NewRecorder_def
        Let_def)
  with b p l' k f s show ?thesis
    by simp
qed

text \<open>
  Claim C10. When preparation has completed on a router, a second preparation with no
  registration in between completes too and leaves every field of every router of the
  tree as the first left it, the combined expressions among them. In the router so
  prepared every route, in the root or in a group, has as its final handler the chain of
  the middleware of the routers on the way to it and of its own middleware around its bare
  handler, each layer once: the second preparation does not wrap the handler that the
  first one stored. This holds whatever \<^verbatim>\<open>regexp.MustCompile\<close> accepts.
\<close>

theorem Prepare_idempotent:
  assumes "prepare compile [] r = Some r1"
  shows "prepare compile [] r1 = Some r1 \<and>
         (\<forall>ps ls method rts k rt.
            lineage ps r1 = Some ls \<longrightarrow> map_of (routes (last ls)) method = Some rts \<longrightarrow>
            k < length rts \<longrightarrow> rts ! k = Some rt \<longrightarrow>
            finalHandler rt =
              Some (chain (concat (map Middleware ls)) (chain (middleware rt) (handler rt))))"
proof -
  from prepare_idem_aux(1)[of compile "[]" r] assms have p: "prepare compile [] r1 = Some r1"
    by simp
  have "finalHandler rt =
      Some (chain (concat (map Middleware ls)) (chain (middleware rt) (handler rt)))"
    if l: "lineage ps r1 = Some ls" and t: "map_of (routes (last ls)) m = Some rts"
      and k: "k < length rts" "rts ! k = Some rt"
    for ps ls m rts k rt
  proof -
    from prepared_slot[OF p l t k] l
    have "routes_of (last ls) m ! k = Some (prepare_route (concat (map Middleware ls)) rt)"
      by auto
    with t k(2) have "rt = prepare_route (concat (map Middleware ls)) rt"
      by (simp add: routes_of_def)
    then have "finalHandler rt = finalHandler (prepare_route (concat (map Middleware ls)) rt)"
      by simp
    then show ?thesis
      by (simp add: prepare_route_def)
  qed
  with p show ?thesis
    by blast
qed

text \<open>
  An instance with layers that write their names: after two preparations the body reads
  \<^verbatim>\<open>MRH\<close>, each name once.
\<close>

definition twice_calls :: "(Router \<Rightarrow> panic + Router) list" where
  "twice_calls =
     [Use (mark ''M''), Get ''/posts/<year:[0-9]+>'' (helloHandler ''H'') [mark ''R'']]"

theorem Prepare_idempotent_witness:
  "(case build twice_calls New of
      Inl p \<Rightarrow> False
    | Inr r \<Rightarrow>
        (case Prepare r of
           None \<Rightarrow> False
         | Some r1 \<Rightarrow>
             (case Prepare r1 of
                None \<Rightarrow> False
              | Some r2 \<Rightarrow>
                  r2 = r1 \<and>
                  body_of (ServeHTTP r2 NewRecorder (NewRequest MethodGet ''/posts/2017'')) = ''MRH'' \<and>
                  map (map_option (\<lambda>rt. map_option
                         (\<lambda>h. body_of (h NewRecorder (NewRequest MethodGet ''/posts/2017'')))
                         (finalHandler rt)))
                    (routes_of r2 MethodGet) = [None, Some (Some ''MRH''), None])))"
proof -
  let ?req = "NewRequest MethodGet ''/posts/2017''"
  have "case build twice_calls New of
      Inl p \<Rightarrow> False
    | Inr r \<Rightarrow>
        (case Prepare r of
           None \<Rightarrow> False
         | Some r1 \<Rightarrow>
             body_of (ServeHTTP r1 NewRecorder ?req) = ''MRH'' \<and>
             map (map_option (\<lambda>rt. map_option (\<lambda>h. body_of (h NewRecorder ?req)) (finalHandler rt)))
               (routes_of r1 MethodGet) = [None, Some (Some ''MRH''), None])"
    by (simp add: twice_calls_def body_of_def mark_def helloHandler_def defaultParserRegexp_eq
        regex_eval parse_eval router_eval)
  then obtain r r1 where b: "build twice_calls New = Inr r"
    and p: "Prepare r = Some r1"
    and s: "body_of (ServeHTTP r1 NewRecorder ?req) = ''MRH''"
      "map (map_option (\<lambda>rt. map_option (\<lambda>h. body_of (h NewRecorder ?req)) (finalHandler rt)))
         (routes_of r1 MethodGet) = [None, Some (Some ''MRH''), None]"
    by (auto split: sum.splits option.splits)
  from Prepare_idempotent[OF p[unfolded Prepare_def]] have "Prepare r1 = Some r1"
    by (simp add: Prepare_def)
  with b p s show ?thesis
    by simp
qed



section \<open>When the pattern parser fails\<close>

lemma length_submatches: "length (submatches re i s m) = Suc (ngroups re)"
  by (cases m) (simp add: submatches_def)

lemma ngroups_default: "ngroups defaultParserRegexp = 3"
  by (simp add: defaultParserRegexp_eq)

lemma collect_params_total:
  "(\<forall>m\<in>set matches. 1 < length m) \<Longrightarrow> \<exists>ns. collect_params matches = Inr ns"
  by (induction matches) (auto simp: index_def)

lemma convert_in_range:
  "k < length matches \<Longrightarrow> 3 < length (matches ! k) \<Longrightarrow>
     convert matches (int k - 1) any =
       Inr (int k, if matches ! k ! 3 \<noteq> [] then ''('' @ matches ! k ! 3 @ '')'' else ''([^/]+)'')"
  by (simp add: convert_def index_def)

lemma replace_all_total:
  "(\<forall>m\<in>set matches. 3 < length m) \<Longrightarrow> k + length ml \<le> length matches \<Longrightarrow>
     \<exists>out. replace_all src lastEnd ml (convert matches) (int k - 1) = Inr out"
proof (induction ml arbitrary: k lastEnd)
  case Nil
  then show ?case by simp
next
  case (Cons m ml)
  obtain a b st where m: "m = (a, b, st)"
    by (cases m) auto
  from Cons.prems have k: "k < length matches" and l: "3 < length (matches ! k)"
    by auto
  from Cons.prems have "Suc k + length ml \<le> length matches"
    by simp
  from Cons.IH[OF Cons.prems(1) this, of b] obtain out where
    "replace_all src b ml (convert matches) (int (Suc k) - 1) = Inr out"
    by blast
  then show ?case
    by (simp add: m convert_in_range[OF k l])
qed

text \<open>
  Claim C5. The default parser never panics, and the error it returns is non-nil exactly
  when the pattern is empty or does not begin with \<^verbatim>\<open>/\<close>; for every pattern that begins
  with \<^verbatim>\<open>/\<close> it returns a fragment, the parameter names and the trailing-slash flag
  with a nil error.
\<close>

theorem Parse_error_iff:
  "(case NewParser pattern of
      Inl p \<Rightarrow> False
    | Inr (rg, ps, hts, err) \<Rightarrow> (err \<noteq> None) = (pattern = [] \<or> hd pattern \<noteq> CHR ''/''))"
proof (cases "pattern = [] \<or> hd pattern \<noteq> CHR ''/''")
  case True
  then show ?thesis
    by (auto simp: NewParser_def Parse_def)
next
  case False
  define hts where "hts = (pattern \<noteq> ''/'' \<and> last pattern = CHR ''/'')"
  define pat where "pat = (if hts then butlast pattern else pattern)"
  define ml where "ml = all_matches defaultParserRegexp 0 pat None"
  define matches where "matches = FindAllStringSubmatch defaultParserRegexp pat"
  have len: "\<forall>m\<in>set matches. length m = 4"
    by (auto simp: matches_def FindAllStringSubmatch_def length_submatches ngroups_default)
  then obtain ns where ns: "collect_params matches = Inr ns"
    using collect_params_total[of matches] by auto
  have "0 + length ml \<le> length matches"
    by (simp add: matches_def ml_def FindAllStringSubmatch_def)
  with len obtain out where
    "replace_all pat 0 ml (convert matches) (int 0 - 1) = Inr out"
    using replace_all_total[of matches 0 ml pat 0] by auto
  then have out: "ReplaceAllStringFunc defaultParserRegexp pat (convert matches) (- 1) = Inr out"
    by (simp add: ReplaceAllStringFunc_def ml_def)
  from False ns out show ?thesis
    by (simp add: NewParser_def Parse_def Let_def hts_def[symmetric] pat_def[symmetric]
        matches_def[symmetric])
qed

theorem Parse_error_iff_witness:
  "NewParser ''/users/<id>'' = Inr (''/users/([^/]+)/?'', [''id''], False, None) \<and>
   NewParser ''users'' = Inr ([], [], False, Some (InvalidPatternError ''users'')) \<and>
   NewParser [] = Inr ([], [], False, Some (InvalidPatternError []))"
  using Parse_error_iff[of "''/users/<id>''"] Parse_error_iff[of "''users''"] Parse_error_iff[of "[]"]
  by (simp add: defaultParserRegexp_eq regex_eval parse_eval)


section \<open>Placeholders with a sub-expression\<close>


text \<open>Adding the text \<open>t\<close> behind the text still to read.\<close>

definition app :: "string \<Rightarrow> mstate \<Rightarrow> mstate" where
  "app t st = (fst st, fst (snd st) @ t, snd (snd st))"

lemma app_simp [simp]: "app t (i, s, cs) = (i, s @ t, cs)"
  by (simp add: app_def)

lemma app_sel [simp]:
  "fst (app t st) = fst st" "fst (snd (app t st)) = fst (snd st) @ t"
  "snd (snd (app t st)) = snd (snd st)"
  by (simp_all add: app_def)

























lemma search_from:
  "search re i s = Some (a, st) \<Longrightarrow>
     st \<in> set (ends_of re (a, drop (a - i) s, Map.empty)) \<and> i \<le> a"
proof (induction re i s rule: search.induct)
  case (1 re i)
  then show ?case
    by (auto split: list.splits)
next
  case (2 re i x xs)
  show ?case
  proof (cases "ends_of re (i, x # xs, Map.empty)")
    case Nil
    with "2.prems" have "search re (Suc i) xs = Some (a, st)"
      by simp
    from "2.IH"[OF Nil this] have *: "st \<in> set (ends_of re (a, drop (a - Suc i) xs, Map.empty))"
      "Suc i \<le> a"
      by simp_all
    from *(2) have "a - i = Suc (a - Suc i)"
      by arith
    with * show ?thesis
      by simp
  next
    case (Cons m list)
    with "2.prems" show ?thesis
      by auto
  qed
qed





text \<open>Matches do not span a slash: the text is scanned segment by segment.\<close>

definition behind :: "string \<Rightarrow> nat \<times> mstate \<Rightarrow> nat \<times> mstate" where
  "behind t m = (fst m, app t (snd m))"






lemma submatches_behind: "submatches re i s (behind t m) = submatches re i s m"
  by (cases m) (simp add: submatches_def behind_def app_def)



text \<open>
  The default expression has no \<^verbatim>\<open>^\<close>, so a match does not depend on the offset at which
  the text starts.
\<close>

definition shift :: "nat \<Rightarrow> mstate \<Rightarrow> mstate" where
  "shift d st = (fst st + d, snd st)"

lemma shift_simp [simp]: "shift d (i, s, cs) = (i + d, s, cs)"
  by (simp add: shift_def)

lemma shift_sel [simp]: "fst (shift d st) = fst st + d" "snd (shift d st) = snd st"
  by (simp_all add: shift_def)




definition shiftm :: "nat \<Rightarrow> nat \<times> mstate \<Rightarrow> nat \<times> mstate" where
  "shiftm d m = (fst m + d, shift d (snd m))"

lemma shiftm_simp [simp]: "shiftm d (a, b, s, cs) = (a + d, b + d, s, cs)"
  by (simp add: shiftm_def)




text \<open>
  What \<^verbatim>\<open>ReplaceAllStringFunc\<close> builds with the callback of \<^verbatim>\<open>Parse\<close>: the text between
  the matches, and for each match what the callback returns, \<open>sub_of\<close>; then the text
  behind the last match.
\<close>

definition sub_of :: "nat \<times> mstate \<Rightarrow> string" where
  "sub_of m = (case snd (snd (snd m)) 3 of
                 None \<Rightarrow> ''([^/]+)''
               | Some t \<Rightarrow> if t \<noteq> [] then ''('' @ t @ '')'' else ''([^/]+)'')"


fun last_end :: "nat \<Rightarrow> (nat \<times> mstate) list \<Rightarrow> nat" where
  "last_end l [] = l"
| "last_end l (m # rest) = last_end (fst (snd m)) rest"







lemma sub_of_behind [simp]: "sub_of (behind t m) = sub_of m"
  by (simp add: sub_of_def behind_def)

lemma sub_of_shiftm [simp]: "sub_of (shiftm d m) = sub_of m"
  by (simp add: sub_of_def shiftm_def)

lemma behind_sel [simp]: "fst (behind t m) = fst m" "fst (snd (behind t m)) = fst (snd m)"
  "snd (snd (snd (behind t m))) = snd (snd (snd m))"
  by (simp_all add: behind_def)

lemma shiftm_sel [simp]: "fst (shiftm d m) = fst m + d" "fst (snd (shiftm d m)) = fst (snd m) + d"
  "snd (snd (snd (shiftm d m))) = snd (snd (snd m))"
  by (simp_all add: shiftm_def)


lemma last_end_behind [simp]: "last_end l (map (behind t) ml) = last_end l ml"
  by (induction ml arbitrary: l) simp_all















section \<open>The slots of a route list and the groups of its combined expression\<close>

subsection \<open>A fragment compiles inside a group as it does alone\<close>

fun shiftg :: "nat \<Rightarrow> regex \<Rightarrow> regex" where
  "shiftg n (Grp k a) = Grp (k + n) (shiftg n a)"
| "shiftg n (Seq a b) = Seq (shiftg n a) (shiftg n b)"
| "shiftg n (Alt a b) = Alt (shiftg n a) (shiftg n b)"
| "shiftg n (Star a) = Star (shiftg n a)"
| "shiftg n (Plus a) = Plus (shiftg n a)"
| "shiftg n (Opt a) = Opt (shiftg n a)"
| "shiftg n a = a"

definition shift_frame :: "nat \<Rightarrow> frame \<Rightarrow> frame" where
  "shift_frame n f =
     (map_option (\<lambda>k. k + n) (fst f), map (shiftg n) (fst (snd f)), map (shiftg n) (snd (snd f)))"

text \<open>
  The state \<open>st\<close> of a compilation that began at the start of an expression, seen as
  a state of a compilation that began \<open>n\<close> groups earlier with the frames \<open>base\<close> open.
\<close>

definition embed :: "frame list \<Rightarrow> nat \<Rightarrow> pstate \<Rightarrow> pstate" where
  "embed base n st =
     st\<lparr>cur := map (shiftg n) (cur st), alts := map (shiftg n) (alts st),
        stack := map (shift_frame n) (stack st) @ base, ncap := ncap st + n\<rparr>"

lemma shiftg_mkseq: "shiftg n (mkseq xs) = mkseq (map (shiftg n) xs)"
  by (induction xs rule: mkseq.induct) simp_all

lemma shiftg_mkalt: "shiftg n (mkalt xs) = mkalt (map (shiftg n) xs)"
  by (induction xs rule: mkalt.induct) simp_all

lemma shiftg_collapse:
  "shiftg n (collapse as c) = collapse (map (shiftg n) as) (map (shiftg n) c)"
  by (simp add: collapse_def shiftg_mkalt shiftg_mkseq rev_map)

lemma escape_shiftg: "escape c = Some a \<Longrightarrow> shiftg n a = a"
  by (auto simp: escape_def split: if_splits)

lemma embed_sel [simp]:
  "pmode (embed base n st) = pmode st"
  "cur (embed base n st) = map (shiftg n) (cur st)"
  "alts (embed base n st) = map (shiftg n) (alts st)"
  "stack (embed base n st) = map (shift_frame n) (stack st) @ base"
  "ncap (embed base n st) = ncap st + n"
  "rep (embed base n st) = rep st"
  by (simp_all add: embed_def)

lemma mode_embed: "embed base n (st\<lparr>pmode := m\<rparr>) = (embed base n st)\<lparr>pmode := m\<rparr>"
  by (simp add: embed_def)

lemma atom_embed:
  "shiftg n a = a \<Longrightarrow> atom a (embed base n st) = map_option (embed base n) (atom a st)"
  by (simp add: atom_def embed_def)

lemma bar_embed: "bar (embed base n st) = map_option (embed base n) (bar st)"
  by (simp add: bar_def embed_def shiftg_mkseq rev_map)

lemma repeat_embed:
  "(\<And>a. shiftg n (f a) = f (shiftg n a)) \<Longrightarrow>
     repeat f (embed base n st) = map_option (embed base n) (repeat f st)"
  by (cases "cur st") (simp_all add: repeat_def embed_def)

lemma close_embed:
  "close st \<noteq> None \<Longrightarrow> close (embed base n st) = map_option (embed base n) (close st)"
proof (cases "stack st")
  case Nil
  then show "close st \<noteq> None \<Longrightarrow> ?thesis"
    by (simp add: close_def)
next
  case (Cons f fs)
  obtain k c as where f: "f = (k, c, as)"
    by (cases f) auto
  show ?thesis
    by (cases k) (simp_all add: close_def Cons f embed_def shift_frame_def shiftg_collapse Let_def)
qed

lemma normal_embed:
  assumes "normal st c \<noteq> None"
  shows "normal (embed base n st) c = map_option (embed base n) (normal st c)"
proof (cases "c = CHR '')''")
  case True
  with assms have "close st \<noteq> None"
    by (simp add: normal_def)
  with True show ?thesis
    by (simp add: normal_def close_embed)
next
  case False
  then show ?thesis
    by (simp add: normal_def mode_embed atom_embed bar_embed repeat_embed)
qed

lemma in_cls_embed:
  "in_cls neg first rs p (embed base n st) c = map_option (embed base n) (in_cls neg first rs p st c)"
  by (auto simp: in_cls_def mode_embed atom_embed split: pend.splits)

lemma push_cap_embed: "push_cap (embed base n st) = embed base n (push_cap st)"
  by (simp add: push_cap_def push_def embed_def shift_frame_def)

lemma push_None_embed: "push None (embed base n st) = embed base n (push None st)"
  by (simp add: push_def embed_def shift_frame_def)

lemma step_embed:
  assumes "step st c = Some st'"
  shows "step (embed base n st) c = Some (embed base n st')"
proof (cases "pmode st")
  case Normal
  with assms show ?thesis
    by (simp add: step_def normal_embed)
next
  case Esc
  with assms show ?thesis
    by (auto simp: step_def atom_embed escape_shiftg split: option.splits)
next
  case Open
  with assms show ?thesis
    by (auto simp: step_def push_cap_embed normal_embed mode_embed split: if_splits)
next
  case OpenQ
  with assms show ?thesis
    by (auto simp: step_def push_None_embed split: if_splits)
next
  case ClsOpen
  with assms show ?thesis
    by (auto simp: step_def in_cls_embed mode_embed split: if_splits)
next
  case (InCls neg first rs p)
  with assms show ?thesis
    by (simp add: step_def in_cls_embed)
qed

lemma run_None [simp]: "run None s = None"
  by (cases s) simp_all

lemma run_append: "run st (s @ t) = run (run st s) t"
  by (induction st s rule: run.induct) simp_all

lemma run_embed:
  "run (Some st) s = Some st' \<Longrightarrow> run (Some (embed base n st)) s = Some (embed base n st')"
proof (induction s arbitrary: st)
  case Nil
  then show ?case by simp
next
  case (Cons c s)
  then obtain st1 where s1: "step st c = Some st1"
    by (cases "step st c") simp_all
  with Cons.prems have "run (Some st1) s = Some st'"
    by simp
  from Cons.IH[OF this] step_embed[OF s1] show ?case
    by simp
qed


subsection \<open>The numbers of the groups of a compiled expression\<close>

fun gnums :: "regex \<Rightarrow> nat set" where
  "gnums (Grp k a) = insert k (gnums a)"
| "gnums (Seq a b) = gnums a \<union> gnums b"
| "gnums (Alt a b) = gnums a \<union> gnums b"
| "gnums (Star a) = gnums a"
| "gnums (Plus a) = gnums a"
| "gnums (Opt a) = gnums a"
| "gnums a = {}"

definition count :: "regex list \<Rightarrow> nat" where
  "count xs = sum_list (map ngroups xs)"

definition frame_count :: "frame \<Rightarrow> nat" where
  "frame_count f = (case fst f of None \<Rightarrow> 0 | Some k \<Rightarrow> 1) + count (fst (snd f)) + count (snd (snd f))"

definition within :: "nat \<Rightarrow> regex \<Rightarrow> bool" where
  "within m a = (\<forall>k\<in>gnums a. 0 < k \<and> k \<le> m)"

definition bounded :: "nat \<Rightarrow> regex list \<Rightarrow> bool" where
  "bounded m xs = (\<forall>a\<in>set xs. within m a)"

definition frame_bounded :: "nat \<Rightarrow> frame \<Rightarrow> bool" where
  "frame_bounded m f =
     ((case fst f of None \<Rightarrow> True | Some k \<Rightarrow> 0 < k \<and> k \<le> m) \<and>
      bounded m (fst (snd f)) \<and> bounded m (snd (snd f)))"

text \<open>
  While an expression is compiled, the counter of groups is the number of groups built
  or open, and no group has a number above it.
\<close>

definition counted :: "pstate \<Rightarrow> bool" where
  "counted st =
     (count (cur st) + count (alts st) + sum_list (map frame_count (stack st)) = ncap st)"

definition numbered :: "pstate \<Rightarrow> bool" where
  "numbered st =
     (bounded (ncap st) (cur st) \<and> bounded (ncap st) (alts st) \<and>
      (\<forall>f\<in>set (stack st). frame_bounded (ncap st) f))"

lemma ngroups_mkseq: "ngroups (mkseq xs) = count xs"
  by (induction xs rule: mkseq.induct) (simp_all add: count_def)

lemma ngroups_mkalt: "ngroups (mkalt xs) = count xs"
  by (induction xs rule: mkalt.induct) (simp_all add: count_def)

lemma count_simps [simp]:
  "count [] = 0" "count (a # xs) = ngroups a + count xs" "count (xs @ ys) = count xs + count ys"
  "count (rev xs) = count xs"
  by (simp_all add: count_def rev_map[symmetric])

lemma ngroups_collapse: "ngroups (collapse as c) = count c + count as"
  by (simp add: collapse_def ngroups_mkalt ngroups_mkseq)

lemma gnums_mkseq: "gnums (mkseq xs) = (\<Union>a\<in>set xs. gnums a)"
  by (induction xs rule: mkseq.induct) auto

lemma gnums_mkalt: "gnums (mkalt xs) = (\<Union>a\<in>set xs. gnums a)"
  by (induction xs rule: mkalt.induct) auto

lemma gnums_collapse: "gnums (collapse as c) = (\<Union>a\<in>set as \<union> set c. gnums a)"
  by (auto simp: collapse_def gnums_mkalt gnums_mkseq)

lemma within_simps [simp]:
  "within m (Grp k a) = (0 < k \<and> k \<le> m \<and> within m a)"
  "within m (Star a) = within m a" "within m (Plus a) = within m a" "within m (Opt a) = within m a"
  "within m (Seq a b) = (within m a \<and> within m b)"
  "within m (Alt a b) = (within m a \<and> within m b)"
  "within m Eps" "within m (Chr c)" "within m Dot" "within m (Cls neg rs)" "within m Bol"
  "within m Eol"
  by (auto simp: within_def)

lemma bounded_simps [simp]:
  "bounded m []" "bounded m (a # xs) = (within m a \<and> bounded m xs)"
  "bounded m (xs @ ys) = (bounded m xs \<and> bounded m ys)" "bounded m (rev xs) = bounded m xs"
  by (auto simp: bounded_def)

lemma within_mono: "within m a \<Longrightarrow> m \<le> m' \<Longrightarrow> within m' a"
  by (fastforce simp: within_def)

lemma bounded_mono: "bounded m xs \<Longrightarrow> m \<le> m' \<Longrightarrow> bounded m' xs"
  by (auto simp: bounded_def intro: within_mono)

lemma frame_bounded_mono: "frame_bounded m f \<Longrightarrow> m \<le> m' \<Longrightarrow> frame_bounded m' f"
  by (auto simp: frame_bounded_def split: option.splits intro: bounded_mono)

lemma within_mkseq: "within m (mkseq xs) = bounded m xs"
  by (induction xs rule: mkseq.induct) simp_all

lemma within_mkalt: "within m (mkalt xs) = bounded m xs"
  by (induction xs rule: mkalt.induct) simp_all

lemma within_collapse: "within m (collapse as c) = (bounded m as \<and> bounded m c)"
  by (auto simp: collapse_def within_mkalt within_mkseq)

lemma escape_plain: "escape c = Some a \<Longrightarrow> ngroups a = 0 \<and> within m a"
  by (auto simp: escape_def split: if_splits)

lemma counted_mode: "counted (st\<lparr>pmode := m\<rparr>) = counted st"
  by (simp add: counted_def)

lemma counted_atom: "counted st \<Longrightarrow> ngroups a = 0 \<Longrightarrow> atom a st = Some st' \<Longrightarrow> counted st'"
  by (auto simp: atom_def counted_def)

lemma counted_bar: "counted st \<Longrightarrow> bar st = Some st' \<Longrightarrow> counted st'"
  by (auto simp: bar_def counted_def ngroups_mkseq)

lemma counted_repeat:
  "counted st \<Longrightarrow> (\<And>a. ngroups (f a) = ngroups a) \<Longrightarrow> repeat f st = Some st' \<Longrightarrow> counted st'"
  by (auto simp: repeat_def counted_def split: if_splits list.splits)

lemma counted_close:
  assumes "counted st" "close st = Some st'"
  shows "counted st'"
proof -
  from assms(2) obtain k c as fs where s: "stack st = (k, c, as) # fs"
    by (cases "stack st") (auto simp: close_def)
  with assms show ?thesis
    by (cases k) (auto simp: close_def counted_def frame_count_def ngroups_collapse Let_def)
qed

lemma counted_push_cap: "counted st \<Longrightarrow> counted (push_cap st)"
  by (auto simp: push_cap_def push_def counted_def frame_count_def)

lemma counted_push_None: "counted st \<Longrightarrow> counted (push None st)"
  by (auto simp: push_def counted_def frame_count_def)

lemma counted_normal:
  assumes "counted st" "normal st c = Some st'"
  shows "counted st'"
  using assms unfolding normal_def
  by (auto split: if_splits simp: counted_mode
      intro: counted_close counted_bar counted_repeat[of st Star] counted_repeat[of st Plus]
        counted_repeat[of st Opt] counted_atom[of st Bol] counted_atom[of st Eol]
        counted_atom[of st Dot] counted_atom[of st "Chr c"])

lemma counted_in_cls: "counted st \<Longrightarrow> in_cls neg first rs p st c = Some st' \<Longrightarrow> counted st'"
  unfolding in_cls_def
  by (auto simp: counted_mode split: if_splits pend.splits
      intro: counted_atom[of st "Cls neg xs" for xs])

lemma counted_step:
  assumes "counted st" "step st c = Some st'"
  shows "counted st'"
proof (cases "pmode st")
  case Normal
  with assms show ?thesis
    by (auto simp: step_def intro: counted_normal)
next
  case Esc
  with assms show ?thesis
    by (auto simp: step_def split: option.splits dest: escape_plain intro: counted_atom)
next
  case Open
  with assms show ?thesis
    by (auto simp: step_def counted_mode split: if_splits intro: counted_normal[OF counted_push_cap])
next
  case OpenQ
  with assms show ?thesis
    by (auto simp: step_def split: if_splits intro: counted_push_None)
next
  case ClsOpen
  with assms show ?thesis
    by (auto simp: step_def counted_mode split: if_splits intro: counted_in_cls)
next
  case (InCls neg first rs p)
  with assms show ?thesis
    by (auto simp: step_def intro: counted_in_cls)
qed

lemma numbered_mode: "numbered (st\<lparr>pmode := m\<rparr>) = numbered st"
  by (simp add: numbered_def)

lemma numbered_atom:
  "numbered st \<Longrightarrow> within (ncap st) a \<Longrightarrow> atom a st = Some st' \<Longrightarrow> numbered st'"
  by (auto simp: atom_def numbered_def)

lemma numbered_bar: "numbered st \<Longrightarrow> bar st = Some st' \<Longrightarrow> numbered st'"
  by (auto simp: bar_def numbered_def within_mkseq)

lemma numbered_repeat:
  "numbered st \<Longrightarrow> (\<And>a m. within m (f a) = within m a) \<Longrightarrow> repeat f st = Some st' \<Longrightarrow>
     numbered st'"
  by (auto simp: repeat_def numbered_def split: if_splits list.splits)

lemma numbered_close:
  assumes "numbered st" "close st = Some st'"
  shows "numbered st'"
proof -
  from assms(2) obtain k c as fs where s: "stack st = (k, c, as) # fs"
    by (cases "stack st") (auto simp: close_def)
  from assms(1) s have b: "bounded (ncap st) (cur st)" "bounded (ncap st) (alts st)"
    "frame_bounded (ncap st) (k, c, as)" "\<forall>f\<in>set fs. frame_bounded (ncap st) f"
    by (simp_all add: numbered_def)
  from b(1,2) have g: "within (ncap st) (collapse (alts st) (cur st))"
    by (simp add: within_collapse)
  from assms(2) s have st': "st' = st\<lparr>pmode := Normal,
      cur := (case k of None \<Rightarrow> collapse (alts st) (cur st)
              | Some n \<Rightarrow> Grp n (collapse (alts st) (cur st))) # c,
      alts := as, stack := fs, rep := False\<rparr>"
    by (simp add: close_def Let_def)
  show ?thesis
    using b(3,4) g by (cases k) (simp_all add: st' numbered_def frame_bounded_def)
qed

lemma numbered_push_cap:
  assumes "numbered st"
  shows "numbered (push_cap st)"
proof -
  from assms have b: "bounded (ncap st) (cur st)" "bounded (ncap st) (alts st)"
    "\<forall>f\<in>set (stack st). frame_bounded (ncap st) f"
    by (simp_all add: numbered_def)
  have le: "ncap st \<le> Suc (ncap st)"
    by simp
  have "frame_bounded (Suc (ncap st)) (Some (Suc (ncap st)), cur st, alts st)"
    using b(1,2) le by (auto simp: frame_bounded_def intro: bounded_mono)
  moreover have "\<forall>f\<in>set (stack st). frame_bounded (Suc (ncap st)) f"
    using b(3) le by (blast intro: frame_bounded_mono)
  ultimately show ?thesis
    by (simp add: push_cap_def push_def numbered_def)
qed

lemma numbered_push_None: "numbered st \<Longrightarrow> numbered (push None st)"
  by (auto simp: push_def numbered_def frame_bounded_def)

lemma numbered_normal:
  assumes "numbered st" "normal st c = Some st'"
  shows "numbered st'"
  using assms unfolding normal_def
  by (auto split: if_splits simp: numbered_mode
      intro: numbered_close numbered_bar numbered_repeat[of st Star] numbered_repeat[of st Plus]
        numbered_repeat[of st Opt] numbered_atom[of st Bol] numbered_atom[of st Eol]
        numbered_atom[of st Dot] numbered_atom[of st "Chr c"])

lemma numbered_in_cls: "numbered st \<Longrightarrow> in_cls neg first rs p st c = Some st' \<Longrightarrow> numbered st'"
  unfolding in_cls_def
  by (auto simp: numbered_mode split: if_splits pend.splits
      intro: numbered_atom[of st "Cls neg xs" for xs])

lemma numbered_step:
  assumes "numbered st" "step st c = Some st'"
  shows "numbered st'"
proof (cases "pmode st")
  case Normal
  with assms show ?thesis
    by (auto simp: step_def intro: numbered_normal)
next
  case Esc
  with assms show ?thesis
    by (auto simp: step_def split: option.splits dest: escape_plain intro: numbered_atom)
next
  case Open
  with assms show ?thesis
    by (auto simp: step_def numbered_mode split: if_splits
        intro: numbered_normal[OF numbered_push_cap])
next
  case OpenQ
  with assms show ?thesis
    by (auto simp: step_def split: if_splits intro: numbered_push_None)
next
  case ClsOpen
  with assms show ?thesis
    by (auto simp: step_def numbered_mode split: if_splits intro: numbered_in_cls)
next
  case (InCls neg first rs p)
  with assms show ?thesis
    by (auto simp: step_def intro: numbered_in_cls)
qed

lemma invariants_run:
  "counted st \<Longrightarrow> numbered st \<Longrightarrow> run (Some st) s = Some st' \<Longrightarrow> counted st' \<and> numbered st'"
proof (induction s arbitrary: st)
  case Nil
  then show ?case by simp
next
  case (Cons c s)
  then obtain st1 where s1: "step st c = Some st1"
    by (cases "step st c") simp_all
  with Cons.prems have "run (Some st1) s = Some st'"
    by simp
  from Cons.IH[OF counted_step[OF Cons.prems(1) s1] numbered_step[OF Cons.prems(2) s1] this]
  show ?case .
qed

lemma invariants_init: "counted init" "numbered init"
  by (simp_all add: counted_def numbered_def init_def)

lemma MustCompile_state:
  assumes "MustCompile f = Some a"
  obtains st where "run (Some init) f = Some st" "pmode st = Normal" "stack st = []"
    "a = collapse (alts st) (cur st)" "ncap st = ngroups a" "within (ngroups a) a"
proof -
  from assms obtain st where r: "run (Some init) f = Some st" and m: "pmode st = Normal"
    and s: "stack st = []" and a: "a = collapse (alts st) (cur st)"
    by (auto simp: MustCompile_def finish_def split: option.splits if_splits)
  from invariants_run[OF invariants_init r] have w: "counted st" "numbered st"
    by simp_all
  from w(1) s have n: "ncap st = ngroups a"
    by (simp add: counted_def a ngroups_collapse)
  from w(2) have "within (ncap st) a"
    by (simp add: numbered_def a within_collapse)
  with n r m s a that show ?thesis
    by simp
qed


subsection \<open>The combined expression of a route list\<close>

text \<open>
  The route list that \<^verbatim>\<open>Handle\<close> builds from the routes \<open>rs\<close>, in the order of their
  registration: the \<^verbatim>\<open>nil\<close> at index 0, then for each route its entry and a \<^verbatim>\<open>nil\<close>
  for each of its parameters.
\<close>

fun blocks :: "route list \<Rightarrow> route option list" where
  "blocks [] = []"
| "blocks (rt # rs) = Some rt # replicate (length (params rt)) None @ blocks rs"

definition slots :: "route list \<Rightarrow> route option list" where
  "slots rs = None # blocks rs"

text \<open>
  The groups of the alternatives of the combined expression, for fragments that compile
  to the expressions \<open>as\<close>, the first of them opening after \<open>n\<close> groups.
\<close>

fun route_groups :: "nat \<Rightarrow> regex list \<Rightarrow> regex list" where
  "route_groups n [] = []"
| "route_groups n (a # as) = Grp (Suc n) (shiftg (Suc n) a) # route_groups (Suc n + ngroups a) as"

lemma regs_of_replicate: "regs_of (replicate n None @ xs) = regs_of xs"
  by (induction n) simp_all

lemma regs_of_blocks: "regs_of (blocks rs) = map (\<lambda>rt. ''('' @ reg rt @ '')'') rs"
  by (induction rs) (simp_all add: regs_of_replicate)

lemma MustCompile_quest: "MustCompile (CHR ''?'' # f) = None"
  by (simp add: MustCompile_def init_def step_def normal_def repeat_def finish_def)

lemma open_run:
  assumes "pmode st = Open" "s \<noteq> []" "hd s \<noteq> CHR ''?''"
  shows "run (Some st) s = run (Some (push_cap st)) s"
proof -
  from assms(2) obtain c s' where s: "s = c # s'"
    by (cases s) auto
  with assms(3) have "c \<noteq> CHR ''?''"
    by simp
  with assms(1) have "step st c = step (push_cap st) c"
    by (simp add: step_def push_cap_def push_def)
  then show ?thesis
    by (simp add: s)
qed

lemma push_cap_as_embed:
  "push_cap st = embed ((Some (Suc (ncap st)), cur st, alts st) # stack st) (Suc (ncap st)) init"
  by (simp add: push_cap_def push_def embed_def init_def)

lemma group_run:
  assumes "pmode st = Normal" "MustCompile f = Some a"
  shows "run (Some st) (''('' @ f @ '')'' @ rest) =
           run (Some (st\<lparr>cur := Grp (Suc (ncap st)) (shiftg (Suc (ncap st)) a) # cur st,
                          ncap := Suc (ncap st) + ngroups a, rep := False\<rparr>)) rest"
proof -
  let ?n = "Suc (ncap st)"
  let ?base = "(Some ?n, cur st, alts st) # stack st"
  from MustCompile_state[OF assms(2)] obtain sf where sf: "run (Some init) f = Some sf"
    "pmode sf = Normal" "stack sf = []" "a = collapse (alts sf) (cur sf)" "ncap sf = ngroups a"
    by blast
  have q: "hd (f @ CHR '')'' # rest) \<noteq> CHR ''?''"
    using assms(2) MustCompile_quest by (cases f) auto
  have "run (Some st) (''('' @ f @ '')'' @ rest) =
      run (Some (st\<lparr>pmode := Open\<rparr>)) (f @ CHR '')'' # rest)"
    using assms(1) by (simp add: step_def normal_def)
  also have "\<dots> = run (Some (push_cap (st\<lparr>pmode := Open\<rparr>))) (f @ CHR '')'' # rest)"
    using q by (intro open_run) simp_all
  also have "push_cap (st\<lparr>pmode := Open\<rparr>) = embed ?base ?n init"
    by (simp add: push_cap_as_embed[symmetric]) (simp add: push_cap_def push_def)
  also have "run (Some (embed ?base ?n init)) (f @ CHR '')'' # rest) =
      run (Some (embed ?base ?n sf)) (CHR '')'' # rest)"
    by (simp add: run_append run_embed[OF sf(1)])
  also have "\<dots> = run (Some (st\<lparr>cur := Grp ?n (shiftg ?n a) # cur st,
                          ncap := ?n + ngroups a, rep := False\<rparr>)) rest"
  proof -
    have "step (embed ?base ?n sf) CHR '')'' =
        Some ((embed ?base ?n sf)\<lparr>pmode := Normal, cur := Grp ?n (shiftg ?n a) # cur st,
                alts := alts st, stack := stack st, rep := False\<rparr>)"
      using sf(2-4) by (simp add: step_def normal_def close_def shiftg_collapse)
    moreover have "(embed ?base ?n sf)\<lparr>pmode := Normal, cur := Grp ?n (shiftg ?n a) # cur st,
                alts := alts st, stack := stack st, rep := False\<rparr> =
        st\<lparr>cur := Grp ?n (shiftg ?n a) # cur st, ncap := ?n + ngroups a, rep := False\<rparr>"
      using assms(1) sf(5) by (intro pstate.equality) simp_all
    ultimately show ?thesis
      by simp
  qed
  finally show ?thesis .
qed




lemma length_route_groups [simp]: "length (route_groups n as) = length as"
  by (induction as arbitrary: n) simp_all

lemma route_groups_Nil [simp]: "route_groups n as = [] \<longleftrightarrow> as = []"
  by (cases as) simp_all

lemma ngroups_shiftg [simp]: "ngroups (shiftg n a) = ngroups a"
  by (induction a) simp_all

lemma join_run:
  assumes "\<forall>rt\<in>set rs. MustCompile (reg rt) = Some (ast rt)" "rs \<noteq> []"
    and "pmode st = Normal" "cur st = []"
  shows "run (Some st) (Join (map (\<lambda>rt. ''('' @ reg rt @ '')'') rs) ''|'' @ rest) =
           run (Some (st\<lparr>cur := [last (route_groups (ncap st) (map ast rs))],
                          alts := rev (butlast (route_groups (ncap st) (map ast rs))) @ alts st,
                          ncap := ncap st + count (route_groups (ncap st) (map ast rs)),
                          rep := False\<rparr>)) rest"
  using assms
proof (induction rs arbitrary: st)
  case Nil
  then show ?case by simp
next
  case (Cons rt rs)
  let ?g = "Grp (Suc (ncap st)) (shiftg (Suc (ncap st)) (ast rt))"
  let ?s1 = "st\<lparr>cur := ?g # cur st, ncap := Suc (ncap st) + ngroups (ast rt), rep := False\<rparr>"
  from Cons.prems have c: "MustCompile (reg rt) = Some (ast rt)"
    by simp
  show ?case
  proof (cases rs)
    case Nil
    have "?s1 = st\<lparr>cur := [?g], alts := [] @ alts st,
        ncap := ncap st + count [?g], rep := False\<rparr>"
      using Cons.prems(4) by (intro pstate.equality) simp_all
    with group_run[OF Cons.prems(3) c, of rest] show ?thesis
      by (simp add: Nil)
  next
    case (Cons rt2 rs2)
    let ?s2 = "?s1\<lparr>pmode := Normal, cur := [], alts := ?g # alts st, rep := False\<rparr>"
    let ?gs = "route_groups (ncap ?s2) (map ast rs)"
    have ne: "rs \<noteq> []" "?gs \<noteq> []"
      using Cons by simp_all
    have "run (Some st) (Join (map (\<lambda>rt. ''('' @ reg rt @ '')'') (rt # rs)) ''|'' @ rest) =
        run (Some st) (''('' @ reg rt @ '')'' @
          (''|'' @ Join (map (\<lambda>rt. ''('' @ reg rt @ '')'') rs) ''|'' @ rest))"
      by (simp add: Cons)
    also have "\<dots> = run (Some ?s1) (''|'' @ Join (map (\<lambda>rt. ''('' @ reg rt @ '')'') rs) ''|'' @ rest)"
      by (rule group_run[OF Cons.prems(3) c])
    also have "\<dots> = run (Some ?s2) (Join (map (\<lambda>rt. ''('' @ reg rt @ '')'') rs) ''|'' @ rest)"
      using Cons.prems(3,4) by (simp add: step_def normal_def bar_def)
    also have "\<dots> = run (Some (?s2\<lparr>cur := [last ?gs], alts := rev (butlast ?gs) @ alts ?s2,
        ncap := ncap ?s2 + count ?gs, rep := False\<rparr>)) rest"
      using Cons.prems(1) ne(1) by (intro Cons.IH) simp_all
    also have "?s2\<lparr>cur := [last ?gs], alts := rev (butlast ?gs) @ alts ?s2,
        ncap := ncap ?s2 + count ?gs, rep := False\<rparr> =
      st\<lparr>cur := [last (route_groups (ncap st) (map ast (rt # rs)))],
         alts := rev (butlast (route_groups (ncap st) (map ast (rt # rs)))) @ alts st,
         ncap := ncap st + count (route_groups (ncap st) (map ast (rt # rs))),
         rep := False\<rparr>"
      using ne(2) Cons.prems(3) by (intro pstate.equality) simp_all
    finally show ?thesis .
  qed
qed


definition prefix_state :: pstate where
  "prefix_state = \<lparr>pmode = Normal, cur = [], alts = [], stack = [(None, [Bol], [])],
     ncap = 0, rep = False\<rparr>"

lemma prefix_run: "run (Some init) (''^(?:'' @ t) = run (Some prefix_state) t"
  by (simp add: prefix_state_def init_def step_def normal_def atom_def push_def)

lemma collapse_last:
  assumes "gs \<noteq> []"
  shows "collapse (rev (butlast gs)) [last gs] = mkalt gs"
proof -
  from assms have "butlast gs @ [last gs] = gs"
    by simp
  then have "rev (mkseq (rev [last gs]) # rev (butlast gs)) = gs"
    by simp
  then show ?thesis
    unfolding collapse_def by (rule arg_cong)
qed

lemma collapse_single: "collapse [] [c, b, a] = Seq a (Seq b c)"
  by (simp add: collapse_def)

lemma suffix_run:
  assumes "pmode st = Normal" "stack st = [(None, [Bol], [])]"
  shows "finish (run (Some st) '')$'') = Some (Seq Bol (Seq (collapse (alts st) (cur st)) Eol))"
  using assms by (simp add: step_def normal_def close_def atom_def finish_def collapse_single)

lemma compile_combined:
  assumes "\<forall>rt\<in>set rs. MustCompile (reg rt) = Some (ast rt)"
  shows "MustCompile (combine (slots rs)) =
           Some (Seq Bol (Seq (mkalt (route_groups 0 (map ast rs))) Eol))"
proof -
  let ?j = "Join (map (\<lambda>rt. ''('' @ reg rt @ '')'') rs) ''|''"
  let ?gs = "route_groups 0 (map ast rs)"
  have c: "combine (slots rs) = ''^(?:'' @ ?j @ '')$''"
    by (simp add: combine_def slots_def regs_of_blocks)
  have "\<exists>st. run (Some prefix_state) (?j @ '')$'') = run (Some st) '')$'' \<and>
      pmode st = Normal \<and> stack st = [(None, [Bol], [])] \<and>
      collapse (alts st) (cur st) = mkalt ?gs"
  proof (cases "rs = []")
    case True
    then have "run (Some prefix_state) (?j @ '')$'') = run (Some prefix_state) '')$''"
      by simp
    moreover have "collapse (alts prefix_state) (cur prefix_state) = mkalt ?gs"
      by (simp add: True prefix_state_def collapse_def)
    ultimately show ?thesis
      by (intro exI[of _ prefix_state]) (simp add: prefix_state_def)
  next
    case False
    then have "?gs \<noteq> []"
      by simp
    then have "collapse (rev (butlast ?gs)) [last ?gs] = mkalt ?gs"
      by (rule collapse_last)
    moreover have "pmode prefix_state = Normal" "cur prefix_state = []"
      by (simp_all add: prefix_state_def)
    note join_run[OF assms False this, of "'')$''"]
    ultimately show ?thesis
      by (intro exI[of _ "prefix_state\<lparr>cur := [last ?gs], alts := rev (butlast ?gs) @ alts prefix_state,
        ncap := ncap prefix_state + count ?gs, rep := False\<rparr>"]) (simp add: prefix_state_def)
  qed
  then obtain st where st: "run (Some prefix_state) (?j @ '')$'') = run (Some st) '')$''"
    "pmode st = Normal" "stack st = [(None, [Bol], [])]" "collapse (alts st) (cur st) = mkalt ?gs"
    by blast
  have "MustCompile (combine (slots rs)) = finish (run (Some st) '')$'')"
    unfolding MustCompile_def c prefix_run st(1) ..
  with suffix_run[OF st(2,3)] st(4) show ?thesis
    by simp
qed

subsection \<open>Which group the scan stops at\<close>

text \<open>A match sets no group other than those of the expression.\<close>

lemma ends_keeps:
  "st' \<in> set (ends_of r st) \<Longrightarrow> k \<notin> gnums r \<Longrightarrow> snd (snd st') k = snd (snd st) k"
proof (induction r st arbitrary: st' rule: ends_of.induct)
  case (1 st)
  then show ?case by simp
next
  case (2 c i s cs)
  then show ?case by (cases s) (auto split: if_splits)
next
  case (3 i s cs)
  then show ?case by (cases s) (auto split: if_splits)
next
  case (4 neg rs i s cs)
  then show ?case by (cases s) (auto split: if_splits)
next
  case (5 i s cs)
  then show ?case by (auto split: if_splits)
next
  case (6 i s cs)
  then show ?case by (auto split: if_splits)
next
  case (7 a b st)
  then obtain m where m: "m \<in> set (ends_of a st)" and s: "st' \<in> set (ends_of b m)"
    by auto
  from "7.prems"(2) have k: "k \<notin> gnums a" "k \<notin> gnums b"
    by simp_all
  from "7.IH"(1)[OF m k(1)] "7.IH"(2)[OF m s k(2)] show ?case
    by simp
next
  case (8 a b st)
  from "8.prems" have "st' \<in> set (ends_of a st) \<or> st' \<in> set (ends_of b st)"
    and "k \<notin> gnums a" "k \<notin> gnums b"
    by simp_all
  then show ?case
    using "8.IH" by blast
next
  case (9 a st)
  show ?case
  proof (cases "st' = st")
    case True
    then show ?thesis by simp
  next
    case False
    with "9.prems"(1) obtain m where m: "m \<in> set (ends_of a st)"
      and lt: "length (fst (snd m)) < length (fst (snd st))"
      and s: "st' \<in> set (ends_of (Star a) m)"
      by (subst (asm) ends_of.simps(9)) (auto split: if_splits)
    from "9.prems"(2) have k: "k \<notin> gnums a" "k \<notin> gnums (Star a)"
      by simp_all
    from "9.IH"(1)[OF m k(1)] "9.IH"(2)[OF m lt s k(2)] show ?thesis
      by simp
  qed
next
  case (10 a st)
  then obtain m where m: "m \<in> set (ends_of a st)" and s: "st' \<in> set (ends_of (Star a) m)"
    by (auto simp: ends_of.simps(10))
  from "10.prems"(2) have k: "k \<notin> gnums a" "k \<notin> gnums (Star a)"
    by simp_all
  from "10.IH"(1)[OF m k(1)] "10.IH"(2)[OF m s k(2)] show ?case
    by simp
next
  case (11 a st)
  from "11.prems" have "st' \<in> set (ends_of a st) \<or> st' = st" and "k \<notin> gnums a"
    by auto
  then show ?case
    using "11.IH" by blast
next
  case (12 n a i s cs)
  from "12.prems"(1) obtain j s' cs' where m: "(j, s', cs') \<in> set (ends_of a (i, s, cs))"
    and e: "st' = (j, s', cs'(n \<mapsto> take (j - i) s))"
    by auto
  from "12.prems"(2) have k: "k \<notin> gnums a" "k \<noteq> n"
    by simp_all
  from "12.IH"[OF m k(1)] e k(2) show ?case
    by simp
qed

lemma gnums_shiftg: "gnums (shiftg n a) = (\<lambda>k. k + n) ` gnums a"
  by (induction a) auto

lemma gnums_route_groups:
  "\<forall>a\<in>set as. within (ngroups a) a \<Longrightarrow> k \<in> gnums (mkalt (route_groups n as)) \<Longrightarrow> n < k"
proof (induction as arbitrary: n)
  case Nil
  then show ?case by simp
next
  case (Cons a as)
  from Cons.prems(2) consider "k = Suc n" | "k \<in> gnums (shiftg (Suc n) a)"
    | "k \<in> gnums (mkalt (route_groups (Suc n + ngroups a) as))"
    by (auto simp: gnums_mkalt)
  then show ?case
  proof cases
    case 1
    then show ?thesis by simp
  next
    case 2
    then show ?thesis by (auto simp: gnums_shiftg)
  next
    case 3
    with Cons.IH[of "Suc n + ngroups a"] Cons.prems(1) show ?thesis
      by simp
  qed
qed

text \<open>The scan stops at the first entry that is not empty.\<close>

lemma first_nonempty_eq:
  assumes "i \<le> g" "g < length matches" "matches ! g \<noteq> []"
    and "\<forall>x. i \<le> x \<and> x < g \<longrightarrow> matches ! x = []"
  shows "first_nonempty matches i = g"
  using assms
proof (induction "g - i" arbitrary: i)
  case 0
  then have "i = g" by simp
  with 0 show ?case
    by (subst first_nonempty.simps) simp
next
  case (Suc d)
  then have "i < g" "matches ! i = []" "i < length matches"
    by auto
  moreover from Suc.prems Suc.hyps(2) have "first_nonempty matches (Suc i) = g"
    by (intro Suc.hyps(1)) auto
  ultimately show ?case
    by (subst first_nonempty.simps) simp
qed


lemma blocks_nth_skip:
  "blocks (rt # rs) ! (Suc (length (params rt)) + k) = blocks rs ! k"
  by (simp add: nth_append)

text \<open>
  A match of the alternation went through one alternative: the group that wraps it holds
  the text read, and no group before it is set.
\<close>

lemma route_groups_select:
  assumes "st' \<in> set (ends_of (mkalt (route_groups n (map ast rs))) (i, s, cs))" "rs \<noteq> []"
    and "\<forall>rt\<in>set rs. within (ngroups (ast rt)) (ast rt) \<and> ngroups (ast rt) = length (params rt)"
  shows "\<exists>g. n < g \<and> g \<le> n + length (blocks rs) \<and>
           snd (snd st') g = Some (take (fst st' - i) s) \<and>
           (\<forall>x. n < x \<and> x < g \<longrightarrow> snd (snd st') x = cs x) \<and>
           (\<exists>rt\<in>set rs. blocks rs ! (g - Suc n) = Some rt)"
  using assms
proof (induction rs arbitrary: n)
  case Nil
  then show ?case by simp
next
  case (Cons rt rs)
  let ?G = "Grp (Suc n) (shiftg (Suc n) (ast rt))"
  let ?n = "Suc n + ngroups (ast rt)"
  let ?rest = "mkalt (route_groups ?n (map ast rs))"
  have first: ?case if "st' \<in> set (ends_of ?G (i, s, cs))"
  proof -
    from that obtain j s' cs' where "st' = (j, s', cs'(Suc n \<mapsto> take (j - i) s))"
      by auto
    then have "n < Suc n \<and> Suc n \<le> n + length (blocks (rt # rs)) \<and>
        snd (snd st') (Suc n) = Some (take (fst st' - i) s) \<and>
        (\<forall>x. n < x \<and> x < Suc n \<longrightarrow> snd (snd st') x = cs x) \<and>
        (\<exists>rt'\<in>set (rt # rs). blocks (rt # rs) ! (Suc n - Suc n) = Some rt')"
      by auto
    then show ?thesis
      by (rule exI)
  qed
  show ?case
  proof (cases rs)
    case Nil
    with Cons.prems(1) have "st' \<in> set (ends_of ?G (i, s, cs))"
      by simp
    then show ?thesis
      by (rule first)
  next
    case (Cons rt2 rs2)
    then have "mkalt (route_groups n (map ast (rt # rs))) = Alt ?G ?rest"
      by simp
    with Cons.prems(1) have "st' \<in> set (ends_of (Alt ?G ?rest) (i, s, cs))"
      by simp
    then have "st' \<in> set (ends_of ?G (i, s, cs)) \<or> st' \<in> set (ends_of ?rest (i, s, cs))"
      by (simp only: ends_of.simps(8) set_append Un_iff)
    then consider "st' \<in> set (ends_of ?G (i, s, cs))" | "st' \<in> set (ends_of ?rest (i, s, cs))"
      by blast
    then show ?thesis
    proof cases
      case 1
      then show ?thesis
        by (rule first)
    next
      case 2
      have ne: "rs \<noteq> []"
        by (simp add: Cons)
      have all: "\<forall>rt\<in>set rs. within (ngroups (ast rt)) (ast rt) \<and>
          ngroups (ast rt) = length (params rt)"
        using Cons.prems(3) by (meson list.set_intros(2))
      from Cons.IH[OF 2 ne all] obtain g rt' where g: "?n < g" "g \<le> ?n + length (blocks rs)"
        "snd (snd st') g = Some (take (fst st' - i) s)"
        "\<forall>x. ?n < x \<and> x < g \<longrightarrow> snd (snd st') x = cs x"
        "rt' \<in> set rs" "blocks rs ! (g - Suc ?n) = Some rt'"
        by blast
      have p: "ngroups (ast rt) = length (params rt)"
        using Cons.prems(3) by (meson list.set_intros(1))
      have low: "snd (snd st') x = cs x" if "n < x" "x < g" for x
      proof (cases "?n < x")
        case True
        with g(4) that show ?thesis
          by simp
      next
        case False
        have "\<forall>a\<in>set (map ast rs). within (ngroups a) a"
          using all by auto
        from gnums_route_groups[OF this, of x ?n] False have "x \<notin> gnums ?rest"
          by blast
        from ends_keeps[OF 2 this] show ?thesis
          by simp
      qed
      have "g - Suc n = Suc (length (params rt)) + (g - Suc ?n)"
        using g(1) p by simp
      then have "blocks (rt # rs) ! (g - Suc n) = Some rt'"
        using g(6) by (simp only: blocks_nth_skip)
      with g(1,2,3,5) low p
      have "n < g \<and> g \<le> n + length (blocks (rt # rs)) \<and>
          snd (snd st') g = Some (take (fst st' - i) s) \<and>
          (\<forall>x. n < x \<and> x < g \<longrightarrow> snd (snd st') x = cs x) \<and>
          (\<exists>rt'\<in>set (rt # rs). blocks (rt # rs) ! (g - Suc n) = Some rt')"
        by auto
      then show ?thesis
        by (rule exI)
    qed
  qed
qed


lemma count_route_groups:
  "\<forall>rt\<in>set rs. ngroups (ast rt) = length (params rt) \<Longrightarrow>
     count (route_groups n (map ast rs)) = length (blocks rs)"
  by (induction rs arbitrary: n) simp_all

lemma submatches_nth:
  assumes "0 < x" "x \<le> ngroups re"
  shows "submatches re i s (a, b, s', cs) ! x = (case cs x of None \<Rightarrow> [] | Some t \<Rightarrow> t)"
proof -
  from assms obtain y where y: "x = Suc y" "y < ngroups re"
    by (cases x) auto
  then have "[1..<Suc (ngroups re)] ! y = x"
    by (simp del: upt_Suc)
  with y show ?thesis
    by (simp add: submatches_def del: upt_Suc)
qed

lemma combined_match:
  assumes s: "search (Seq Bol (Seq (mkalt (route_groups 0 (map ast rs))) Eol)) 0 path = Some m"
    and ne: "path \<noteq> []"
    and w: "\<forall>rt\<in>set rs. within (ngroups (ast rt)) (ast rt) \<and> ngroups (ast rt) = length (params rt)"
  shows "\<exists>g. 0 < g \<and> g \<le> length (blocks rs) \<and> (\<exists>rt\<in>set rs. blocks rs ! (g - 1) = Some rt) \<and>
           (\<exists>cs. m = (0, length path, [], cs) \<and> cs g = Some path \<and>
                 (\<forall>x. 0 < x \<and> x < g \<longrightarrow> cs x = None))"
proof -
  let ?M = "mkalt (route_groups 0 (map ast rs))"
  obtain a st where m: "m = (a, st)"
    by (cases m)
  from search_from[OF s[unfolded m]]
  have "st \<in> set (ends_of (Seq Bol (Seq ?M Eol)) (a, drop a path, Map.empty))"
    by (simp only: diff_zero)
  then have a: "a = 0" and "st \<in> set (ends_of (Seq ?M Eol) (a, drop a path, Map.empty))"
    by (auto split: if_splits)
  then have "st \<in> set (ends_of (Seq ?M Eol) (0, path, Map.empty))"
    by auto
  then obtain mid where mid: "mid \<in> set (ends_of ?M (0, path, Map.empty))"
    and e: "st \<in> set (ends_of Eol mid)"
    by auto
  obtain j s' cs where md: "mid = (j, s', cs)"
    by (cases mid)
  from e md have st: "st = (j, [], cs)" and s': "s' = []"
    by (auto split: if_splits)
  from ends_rest[OF mid[unfolded md]] s' have j: "j = length path"
    by simp
  have rs: "rs \<noteq> []"
  proof
    assume "rs = []"
    with mid md s' ne show False
      by simp
  qed
  from route_groups_select[OF mid rs w] md j
  obtain g where g: "0 < g" "g \<le> length (blocks rs)" "cs g = Some path"
    "\<forall>x. 0 < x \<and> x < g \<longrightarrow> cs x = None" "\<exists>rt\<in>set rs. blocks rs ! (g - 1) = Some rt"
    by auto
  from g m a st j show ?thesis
    by (intro exI[of _ g]) simp
qed

lemma scan_finds_selector:
  assumes c: "\<forall>rt\<in>set rs. MustCompile (reg rt) = Some (ast rt) \<and> ngroups (ast rt) = length (params rt)"
    and re: "MustCompile (combine (slots rs)) = Some re"
    and f: "FindStringSubmatch re path = Some matches"
    and ne: "path \<noteq> []"
  shows "\<exists>rt\<in>set rs. index (slots rs) (int (first_nonempty matches 1)) = Inr (Some rt)"
proof -
  let ?gs = "route_groups 0 (map ast rs)"
  from c have "\<forall>rt\<in>set rs. MustCompile (reg rt) = Some (ast rt)"
    by blast
  from compile_combined[OF this] re have r: "re = Seq Bol (Seq (mkalt ?gs) Eol)"
    by simp
  have w: "\<forall>rt\<in>set rs. within (ngroups (ast rt)) (ast rt) \<and> ngroups (ast rt) = length (params rt)"
  proof
    fix rt
    assume "rt \<in> set rs"
    with c have m: "MustCompile (reg rt) = Some (ast rt)" and n: "ngroups (ast rt) = length (params rt)"
      by blast+
    from MustCompile_state[OF m] have "within (ngroups (ast rt)) (ast rt)"
      by blast
    with n show "within (ngroups (ast rt)) (ast rt) \<and> ngroups (ast rt) = length (params rt)"
      by blast
  qed
  then have "\<forall>rt\<in>set rs. ngroups (ast rt) = length (params rt)"
    by blast
  then have n: "ngroups re = length (blocks rs)"
    by (simp add: r ngroups_mkalt count_route_groups)
  from f obtain m where m: "search re 0 path = Some m" and ms: "matches = submatches re 0 path m"
    by (auto simp: FindStringSubmatch_def)
  from combined_match[OF m[unfolded r] ne w]
  obtain g rt cs where g: "0 < g" "g \<le> length (blocks rs)" "rt \<in> set rs"
    "blocks rs ! (g - 1) = Some rt" "m = (0, length path, [], cs)" "cs g = Some path"
    "\<forall>x. 0 < x \<and> x < g \<longrightarrow> cs x = None"
    by blast
  have len: "length matches = Suc (length (blocks rs))"
    by (simp add: ms length_submatches n)
  have at: "matches ! g = path"
    using g(1,2,6) by (simp add: ms g(5) submatches_nth n)
  have before: "\<forall>x. 1 \<le> x \<and> x < g \<longrightarrow> matches ! x = []"
    using g(2,7) by (simp add: ms g(5) submatches_nth n)
  from g(1,2) len at ne before have "first_nonempty matches 1 = g"
    by (intro first_nonempty_eq) simp_all
  moreover from g(1,2,4) have "index (slots rs) (int g) = Inr (Some rt)"
    by (simp add: index_def slots_def nth_Cons')
  ultimately show ?thesis
    using g(3) by auto
qed


lemma blocks_append: "blocks (rs @ rs') = blocks rs @ blocks rs'"
  by (induction rs) simp_all

lemma slots_map_prepare_route:
  "map (map_option (prepare_route mw)) (slots rs) = slots (map (prepare_route mw) rs)"
  by (induction rs) (simp_all add: slots_def prepare_route_def)

lemma routes_set_routes [simp]: "routes (set_routes v r) = v"
  by (cases r) simp

lemma parser_set_routes [simp]: "parser (set_routes v r) = parser r"
  by (cases r) simp

text \<open>
  \<^verbatim>\<open>Handle\<close> appends one block to the list of the method: the route, then one \<^verbatim>\<open>nil\<close>
  for each of its parameters. A method's first registration puts the \<^verbatim>\<open>nil\<close> of slot 0
  in front.
\<close>

lemma Handle_appends_block:
  assumes "Handle method pattern h mws r = Inr r'"
    and "map_of (routes r) method = None \<and> rs = [] \<or> map_of (routes r) method = Some (slots rs)"
  shows "\<exists>rt. routes_of r' method = slots (rs @ [rt]) \<and> handler rt = h \<and> middleware rt = mws \<and>
           parser r pattern = Inr (reg rt, params rt, hasTrailingSlashes rt, None)"
proof -
  let ?r1 = "if map_of (routes r) method = None
             then set_routes (AList.update method [None] (routes r)) r else r"
  from assms(2) have r1: "routes_of ?r1 method = slots rs" "parser ?r1 = parser r"
    by (auto simp: routes_of_def slots_def update_conv')
  from assms(1) obtain rg ps hts where p: "parser ?r1 pattern = Inr (rg, ps, hts, None)"
    by (auto simp: Handle_def Let_def split: sum.splits option.splits)
  let ?rt = "\<lparr>reg = rg, params = ps, hasTrailingSlashes = hts, middleware = mws, handler = h,
              finalHandler = None\<rparr>"
  from assms(1) p have "r' = set_routes (AList.update method
      (routes_of ?r1 method @ [Some ?rt] @ replicate (length (params ?rt)) None) (routes ?r1)) ?r1"
    by (simp add: Handle_def Let_def)
  then have "routes_of r' method = slots rs @ [Some ?rt] @ replicate (length (params ?rt)) None"
    by (simp add: routes_of_def update_conv' r1(1)[unfolded routes_of_def])
  then have "routes_of r' method = slots (rs @ [?rt])"
    by (simp add: slots_def blocks_append)
  with p r1(2) show ?thesis
    by (intro exI[of _ ?rt]) simp
qed

text \<open>
  Where the scan is right. Let \<open>router\<close> be a router as preparation left it, root or
  group, and let the route list of a method be, as \<^verbatim>\<open>Handle\<close> builds it, the \<^verbatim>\<open>nil\<close> of
  slot 0 followed by one block of \<open>1 + len(params)\<close> slots for each registered route.
  If the fragment of every route of the method compiles on its own to an expression with
  exactly \<open>len(params)\<close> capture groups, then on every path that is not empty and that
  the combined expression matches, the scan stops at the slot of a registered route.
\<close>

lemma selector_slot_holds_route:
  assumes "prepare MustCompile parents r0 = Some router"
    and "routes_of r0 method = slots rs"
    and "\<forall>rt\<in>set rs. \<exists>a. MustCompile (reg rt) = Some a \<and> ngroups a = length (params rt)"
    and "map_of (combinedRegexps router) method = Some re"
    and "FindStringSubmatch re path = Some matches"
    and "path \<noteq> []"
  shows "\<exists>rt\<in>set rs. index (routes_of router method) (int (first_nonempty matches 1)) =
           Inr (Some (prepare_route (Router_middleware r0 parents) rt))"
proof -
  let ?mw = "Router_middleware r0 parents"
  let ?rs = "map (prepare_route ?mw) rs"
  define ast :: "route \<Rightarrow> regex" where "ast = (\<lambda>rt. the (MustCompile (reg rt)))"
  from assms(2) have "map_of (routes r0) method = Some (slots rs)"
    by (auto simp: routes_of_def slots_def split: option.splits)
  from prepare_table[OF assms(1) this] assms(4)
  have t: "routes_of router method = slots ?rs" and c: "MustCompile (combine (slots rs)) = Some re"
    by (simp_all add: slots_map_prepare_route)
  have "combine (slots ?rs) = combine (slots rs)"
    by (simp flip: slots_map_prepare_route add: combine_prepare_route)
  with c have c': "MustCompile (combine (slots ?rs)) = Some re"
    by simp
  have "\<forall>rt\<in>set ?rs. MustCompile (reg rt) = Some (ast rt) \<and> ngroups (ast rt) = length (params rt)"
    using assms(3) by (auto simp: ast_def prepare_route_def)
  from scan_finds_selector[OF this c' assms(5,6)] show ?thesis
    by (auto simp: t)
qed


text \<open>
  Four routes, the last two without parameters and adjacent: \<^verbatim>\<open>GET /help\<close> stops the scan
  at a slot that holds a route.
\<close>

definition site_calls :: "(Router \<Rightarrow> panic + Router) list" where
  "site_calls = [Get ''/users'' emptyHandler [], Get ''/users/<id>'' emptyHandler [],
     Get ''/about'' emptyHandler [], Get ''/help'' emptyHandler []]"

definition site_routes :: "route list" where
  "site_routes =
     [\<lparr>reg = ''/users/?'', params = [], hasTrailingSlashes = False, middleware = [],
        handler = emptyHandler, finalHandler = None\<rparr>,
      \<lparr>reg = ''/users/([^/]+)/?'', params = [''id''], hasTrailingSlashes = False, middleware = [],
        handler = emptyHandler, finalHandler = None\<rparr>,
      \<lparr>reg = ''/about/?'', params = [], hasTrailingSlashes = False, middleware = [],
        handler = emptyHandler, finalHandler = None\<rparr>,
      \<lparr>reg = ''/help/?'', params = [], hasTrailingSlashes = False, middleware = [],
        handler = emptyHandler, finalHandler = None\<rparr>]"

lemma selector_slot_example:
  "(case build site_calls New of
      Inl p \<Rightarrow> False
    | Inr r0 \<Rightarrow>
        routes_of r0 MethodGet = slots site_routes \<and>
        (case prepare MustCompile [] r0 of
           None \<Rightarrow> False
         | Some router \<Rightarrow>
             (case map_of (combinedRegexps router) MethodGet of
                None \<Rightarrow> False
              | Some re \<Rightarrow>
                  (case FindStringSubmatch re ''/help'' of
                     None \<Rightarrow> False
                   | Some matches \<Rightarrow>
                       (\<exists>rt\<in>set site_routes.
                          index (routes_of router MethodGet) (int (first_nonempty matches 1)) =
                            Inr (Some (prepare_route (Router_middleware r0 []) rt)))))))"
proof -
  have frag: "\<forall>rt\<in>set site_routes. \<exists>a. MustCompile (reg rt) = Some a \<and> ngroups a = length (params rt)"
    by (simp add: site_routes_def regex_eval)
  have "case build site_calls New of
      Inl p \<Rightarrow> False
    | Inr r0 \<Rightarrow>
        routes_of r0 MethodGet = slots site_routes \<and>
        (case prepare MustCompile [] r0 of
           None \<Rightarrow> False
         | Some router \<Rightarrow>
             (case map_of (combinedRegexps router) MethodGet of
                None \<Rightarrow> False
              | Some re \<Rightarrow> FindStringSubmatch re ''/help'' \<noteq> None))"
    by (simp add: site_calls_def site_routes_def slots_def defaultParserRegexp_eq regex_eval
        parse_eval router_eval)
  then obtain r0 router re matches where b: "build site_calls New = Inr r0"
    and t: "routes_of r0 MethodGet = slots site_routes"
    and p: "prepare MustCompile [] r0 = Some router"
    and c: "map_of (combinedRegexps router) MethodGet = Some re"
    and f: "FindStringSubmatch re ''/help'' = Some matches"
    by (auto split: sum.splits option.splits)
  from selector_slot_holds_route[OF p t frag c f] b t p c f show ?thesis
    by simp
qed

text \<open>
  Claim C2 (the code departs from it). \<^verbatim>\<open>Handle\<close> pads the route list with one \<^verbatim>\<open>nil\<close>
  for each parameter so that the index of a route in the list is the number of the group
  that wraps its fragment in the combined expression; a group inside the sub-expression
  of a placeholder is not counted. The routes \<^verbatim>\<open>GET /x/<k:(a|b)>\<close> and \<^verbatim>\<open>GET /y\<close> take
  the slots 1 to 3 of a list of length 4, and the combined expression has four groups: on
  \<^verbatim>\<open>GET /y\<close> the first group that is not empty is the fourth, and
  \<^verbatim>\<open>router.routes[method][4]\<close> is out of range.
\<close>

theorem nested_group_out_of_range:
  "(case prepared [Get ''/x/<k:(a|b)>'' emptyHandler [], Get ''/y'' emptyHandler []] of
      None \<Rightarrow> False
    | Some r \<Rightarrow>
        map_option (\<lambda>re. FindStringSubmatch re ''/y'') (map_of (combinedRegexps r) MethodGet) =
          Some (Some [''/y'', [], [], [], ''/y'']) \<and>
        first_nonempty [''/y'', [], [], [], ''/y''] 1 = 4 \<and>
        length (routes_of r MethodGet) = 4 \<and>
        ServeHTTP r NewRecorder (NewRequest MethodGet ''/y'') = Panic IndexOutOfRange NewRecorder)"
  by (simp add: emptyHandler_def defaultParserRegexp_eq regex_eval parse_eval router_eval)

text \<open>
  With a third route behind them the list is long enough, and \<^verbatim>\<open>GET /y\<close> runs the handler
  of \<^verbatim>\<open>/z\<close>.
\<close>

lemma nested_group_runs_other_route:
  "(case prepared [Get ''/x/<k:(a|b)>'' h1 [], Get ''/y'' h2 [], Get ''/z'' h3 []] of
      None \<Rightarrow> False
    | Some r \<Rightarrow>
        ServeHTTP r w (NewRequest MethodGet ''/y'') = h3 w (NewRequest MethodGet ''/y''))"
  by (simp add: defaultParserRegexp_eq regex_eval parse_eval router_eval)


end
